theory Spec2Isabelle
  imports Complex_Main
begin

section \<open>Python strings\<close>

text \<open>
  A Python \<open>str\<close> is a sequence of Unicode code points and \<open>len\<close> counts code points,
  so a string is modelled as a list of code points (natural numbers). \<open>lit\<close> turns an
  ASCII literal of the source into that representation.
\<close>

type_synonym pystr = "nat list"

definition lit :: "string \<Rightarrow> pystr" where
  "lit s = map of_char s"

text \<open>
  The characters that \<open>str.strip()\<close> removes when called without an argument:
  CPython's \<open>Py_UNICODE_ISSPACE\<close> (TAB..CR, FS..US, SPACE, NEL, NBSP, OGHAM SPACE,
  EN QUAD..HAIR SPACE, LINE and PARAGRAPH SEPARATOR, NARROW NBSP, MEDIUM MATHEMATICAL
  SPACE, IDEOGRAPHIC SPACE).
\<close>

definition is_space :: "nat \<Rightarrow> bool" where
  "is_space c \<longleftrightarrow>
     (9 \<le> c \<and> c \<le> 13) \<or> (28 \<le> c \<and> c \<le> 32) \<or> c = 133 \<or> c = 160 \<or> c = 5760 \<or>
     (8192 \<le> c \<and> c \<le> 8202) \<or> c = 8232 \<or> c = 8233 \<or> c = 8239 \<or> c = 8287 \<or>
     c = 12288"

definition lstrip :: "pystr \<Rightarrow> pystr" where
  "lstrip s = dropWhile is_space s"

definition rstrip :: "pystr \<Rightarrow> pystr" where
  "rstrip s = rev (dropWhile is_space (rev s))"

text \<open>\<open>s.strip()\<close>\<close>

definition strip :: "pystr \<Rightarrow> pystr" where
  "strip s = rstrip (lstrip s)"

text \<open>
  \<open>s.replace("\r\n", "\n")\<close>: the occurrences are found left to right and do not
  overlap; the result is not scanned again.
\<close>

fun replace_crlf :: "pystr \<Rightarrow> pystr" where
  "replace_crlf (a # b # s) =
     (if a = 13 \<and> b = 10 then 10 # replace_crlf s else a # replace_crlf (b # s))"
| "replace_crlf s = s"

text \<open>
  \<open>s.split("\n")\<close>: always at least one field (the empty string splits into one empty
  field), so the first case of the \<open>case\<close> below never occurs.
\<close>

fun split_nl :: "pystr \<Rightarrow> pystr list" where
  "split_nl [] = [[]]"
| "split_nl (c # s) =
     (if c = 10 then [] # split_nl s
      else (case split_nl s of [] \<Rightarrow> [[c]] | l # ls \<Rightarrow> (c # l) # ls))"

text \<open>\<open>sep.join(ls)\<close>\<close>

fun py_join :: "pystr \<Rightarrow> pystr list \<Rightarrow> pystr" where
  "py_join sep [] = []"
| "py_join sep [l] = l"
| "py_join sep (l # ls) = l @ sep @ py_join sep ls"

text \<open>\<open>str(n)\<close> for an integer: its decimal digits, with a minus sign when negative.\<close>

fun str_nat :: "nat \<Rightarrow> pystr" where
  "str_nat n = (if n < 10 then [48 + n] else str_nat (n div 10) @ [48 + n mod 10])"

definition str_int :: "int \<Rightarrow> pystr" where
  "str_int i = (if i < 0 then 45 # str_nat (nat (- i)) else str_nat (nat i))"

section \<open>The chunker (\<open>rag_index.chunk_text\<close>)\<close>

text \<open>
  The \<open>for line in text.split("\n")\<close> loop of \<open>chunk_text\<close> together with the final
  flush after it. The state is the pair of the source's local variables \<open>chunks\<close> and
  \<open>current\<close>; \<open>max_chars\<close> is a Python \<open>int\<close>.
\<close>

fun chunk_loop :: "int \<Rightarrow> pystr list \<Rightarrow> pystr list \<Rightarrow> pystr list \<Rightarrow> pystr list" where
  "chunk_loop max_chars [] chunks current =
     (if current \<noteq> [] then chunks @ [strip (py_join [10] current)] else chunks)"
| "chunk_loop max_chars (line # rest) chunks current =
     (if int (sum_list (map length current)) + int (length line) + 1 > max_chars \<and> current \<noteq> []
      then chunk_loop max_chars rest (chunks @ [strip (py_join [10] current)]) [line]
      else chunk_loop max_chars rest chunks (current @ [line]))"

definition chunk_text :: "pystr \<Rightarrow> int \<Rightarrow> pystr list" where
  "chunk_text text max_chars =
     (let text' = strip (replace_crlf text)
      in if text' = [] then [] else chunk_loop max_chars (split_nl text') [] [])"

text \<open>
  The groups of lines that the loop flushes, before they are joined and stripped: the same
  recursion as \<open>chunk_loop\<close>, keeping each \<open>current\<close> as it is at its flush.
\<close>

fun group_lines :: "int \<Rightarrow> pystr list \<Rightarrow> pystr list \<Rightarrow> pystr list list" where
  "group_lines max_chars [] current = (if current \<noteq> [] then [current] else [])"
| "group_lines max_chars (line # rest) current =
     (if int (sum_list (map length current)) + int (length line) + 1 > max_chars \<and> current \<noteq> []
      then current # group_lines max_chars rest [line]
      else group_lines max_chars rest (current @ [line]))"

text \<open>A line that \<open>strip\<close> leaves as it is and that is not empty.\<close>

definition clean_line :: "pystr \<Rightarrow> bool" where
  "clean_line l \<longleftrightarrow> l \<noteq> [] \<and> \<not> is_space (hd l) \<and> \<not> is_space (last l)"

section \<open>JSON values and dictionaries\<close>

text \<open>
  What \<open>json.loads\<close> returns, and what a metadata dictionary of the vector store holds.
  An object is an association list read with \<open>map_of\<close>. A float is the real number it
  denotes.
\<close>

datatype json =
    JNull
  | JBool bool
  | JInt int
  | JFloat real
  | JStr pystr
  | JArr "json list"
  | JObj "(pystr \<times> json) list"

type_synonym pydict = "(pystr \<times> json) list"

datatype error = AttributeError | EncodeError | AddError

text \<open>\<open>d.get(k, dflt)\<close> on a dictionary.\<close>

definition dict_get :: "pydict \<Rightarrow> pystr \<Rightarrow> json \<Rightarrow> json" where
  "dict_get d k dflt = (case map_of d k of None \<Rightarrow> dflt | Some v \<Rightarrow> v)"

text \<open>
  \<open>rec.get(k, dflt)\<close> on a value parsed from a log line: only a dictionary has the
  method; on any other value the attribute lookup raises.
\<close>

fun py_get :: "json \<Rightarrow> pystr \<Rightarrow> json \<Rightarrow> error + json" where
  "py_get (JObj d) k dflt = Inr (dict_get d k dflt)"
| "py_get v k dflt = Inl AttributeError"

text \<open>\<open>v.strip()\<close>: only a string has the method.\<close>

fun py_strip :: "json \<Rightarrow> error + pystr" where
  "py_strip (JStr s) = Inr (strip s)"
| "py_strip v = Inl AttributeError"

text \<open>\<open>bool(v)\<close>\<close>

fun py_bool :: "json \<Rightarrow> bool" where
  "py_bool JNull = False"
| "py_bool (JBool b) = b"
| "py_bool (JInt n) = (n \<noteq> 0)"
| "py_bool (JFloat x) = (x \<noteq> 0)"
| "py_bool (JStr s) = (s \<noteq> [])"
| "py_bool (JArr vs) = (vs \<noteq> [])"
| "py_bool (JObj d) = (d \<noteq> [])"

text \<open>
  \<open>str(v)\<close> as an f-string field formats it. The text of a float, a list or a dictionary
  is Python's \<open>repr\<close>, which is taken as the parameter \<open>rp\<close>.
\<close>

fun py_str :: "(json \<Rightarrow> pystr) \<Rightarrow> json \<Rightarrow> pystr" where
  "py_str rp (JStr s) = s"
| "py_str rp JNull = lit ''None''"
| "py_str rp (JBool b) = (if b then lit ''True'' else lit ''False'')"
| "py_str rp (JInt n) = str_int n"
| "py_str rp v = rp v"

section \<open>The context assembler (\<open>llm_rag_cli.retrieve_context\<close>)\<close>

text \<open>The f-string that formats one retrieved snippet.\<close>

definition format_piece :: "(json \<Rightarrow> pystr) \<Rightarrow> pystr \<Rightarrow> pydict \<Rightarrow> pystr" where
  "format_piece rp doc meta =
     lit ''['' @ py_str rp (dict_get meta (lit ''conversation_title'') (JStr (lit ''unknown'')))
     @ lit ''] ('' @ py_str rp (dict_get meta (lit ''role'') JNull)
     @ lit ''):\<newline>'' @ doc @ lit ''\<newline>''"

text \<open>
  The loop \<open>for doc, meta in zip(docs, metas)\<close> with its \<open>break\<close>; the state is
  \<open>context_chunks\<close> and \<open>total_chars\<close>.
\<close>

fun pack_loop ::
  "(json \<Rightarrow> pystr) \<Rightarrow> int \<Rightarrow> (pystr \<times> pydict) list \<Rightarrow> pystr list \<Rightarrow> int \<Rightarrow> pystr list" where
  "pack_loop rp max_chars [] context_chunks total_chars = context_chunks"
| "pack_loop rp max_chars ((doc, meta) # rest) context_chunks total_chars =
     (let piece = format_piece rp doc meta
      in if total_chars + int (length piece) > max_chars then context_chunks
         else pack_loop rp max_chars rest (context_chunks @ [piece])
                (total_chars + int (length piece)))"

definition header :: pystr where
  "header = lit (''The following context is retrieved from my past ChatGPT conversations. '' @
                 ''Use it to ground your answer, but do NOT repeat it verbatim unless necessary.\<newline>\<newline>'')"

text \<open>
  \<open>docs\<close> and \<open>metas\<close> are the two parallel lists that the store's nearest-neighbour
  query answers for the one query text, nearest first; \<open>max_chars\<close> is the configured
  \<open>max_context_chars\<close>.
\<close>

definition retrieve_context ::
  "(json \<Rightarrow> pystr) \<Rightarrow> pystr list \<Rightarrow> pydict list \<Rightarrow> int \<Rightarrow> pystr" where
  "retrieve_context rp docs metas max_chars =
     (let context_chunks = pack_loop rp max_chars (zip docs metas) [] 0
      in if context_chunks = [] then []
         else header @ py_join (lit ''\<newline>\<newline>'') context_chunks)"

text \<open>The formatted pieces of all candidates, in the store's order, and a total length.\<close>

definition pieces :: "(json \<Rightarrow> pystr) \<Rightarrow> pystr list \<Rightarrow> pydict list \<Rightarrow> pystr list" where
  "pieces rp ds ms = map (\<lambda>(doc, meta). format_piece rp doc meta) (zip ds ms)"

definition total_len :: "pystr list \<Rightarrow> int" where
  "total_len ps = int (sum_list (map length ps))"

section \<open>The index store and the embedding model\<close>

text \<open>
  The vector store and the embedding model are external collaborators. An index entry
  is what \<open>collection.add\<close> stores under one id; the collection is the list of its
  entries in insertion order.
\<close>

record 'v entry =
  eid :: pystr
  embedding :: 'v
  document :: pystr
  metadata :: pydict

text \<open>
  \<open>collection.delete(where={k: v})\<close> removes exactly the entries whose metadata maps
  \<open>k\<close> to \<open>v\<close>.
\<close>

definition store_delete :: "pystr \<Rightarrow> json \<Rightarrow> 'v entry list \<Rightarrow> 'v entry list" where
  "store_delete k v es = filter (\<lambda>e. map_of (metadata e) k \<noteq> Some v) es"

text \<open>
  \<open>collection.add\<close> appends one entry per id; an id that the collection already holds
  is ignored (the persistent client never overwrites on \<open>add\<close>).
\<close>

fun store_add :: "'v entry list \<Rightarrow> 'v entry list \<Rightarrow> 'v entry list" where
  "store_add [] es = es"
| "store_add (e # new) es = store_add new (if eid e \<in> eid ` set es then es else es @ [e])"

text \<open>
  The persistent state a run works on: the collection, the ingest cursor file
  (\<open>None\<close>: no readable file; the file is only ever written by \<open>save_state\<close>, so its
  content is the integer it holds), and how many calls of the embedding model and of
  \<open>collection.add\<close> have been made so far.
\<close>

record 'v world =
  store :: "'v entry list"
  state_file :: "int option"
  encode_calls :: nat
  add_calls :: nat

text \<open>
  What the program cannot decide: the embedding of a text, which calls of the
  collaborators raise (the deletion of the rebuild, the \<open>n\<close>-th call of
  \<open>model.encode\<close>, the \<open>n\<close>-th call of \<open>collection.add\<close>), what \<open>json.loads\<close> makes
  of a line (\<open>None\<close>: it raises), and Python's \<open>repr\<close>.
\<close>

record 'v env =
  embed :: "pystr \<Rightarrow> 'v"
  delete_fails :: bool
  encode_fails :: "nat \<Rightarrow> bool"
  add_fails :: "nat \<Rightarrow> bool"
  loads :: "pystr \<Rightarrow> json option"
  repr :: "json \<Rightarrow> pystr"

text \<open>
  A run either completes or is ended by an exception; both leave a state behind. A call
  that raises has no effect on the collection.
\<close>

datatype 's outcome = Done 's | Raised error 's

text \<open>The three parallel lists \<open>docs\<close>, \<open>metadatas\<close>, \<open>ids\<close> of both ingestion loops.\<close>

record batch =
  docs :: "pystr list"
  metadatas :: "pydict list"
  ids :: "pystr list"

definition empty_batch :: batch where
  "empty_batch = \<lparr>docs = [], metadatas = [], ids = []\<rparr>"

definition batch_entries :: "'v list \<Rightarrow> batch \<Rightarrow> 'v entry list" where
  "batch_entries embeddings b =
     map (\<lambda>(i, e, d, m). \<lparr>eid = i, embedding = e, document = d, metadata = m\<rparr>)
       (zip (ids b) (zip embeddings (zip (docs b) (metadatas b))))"

text \<open>
  The batch insert of both loops: \<open>model.encode(docs)\<close>, then \<open>collection.add(...)\<close>.
  An exception of the first call leaves the second one unmade.
\<close>

definition insert_batch :: "'v env \<Rightarrow> batch \<Rightarrow> 'v world \<Rightarrow> 'v world outcome" where
  "insert_batch env b w =
     (if encode_fails env (encode_calls w)
      then Raised EncodeError (w\<lparr>encode_calls := Suc (encode_calls w)\<rparr>)
      else
        let embeddings = map (embed env) (docs b);
            w1 = w\<lparr>encode_calls := Suc (encode_calls w)\<rparr>
        in if add_fails env (add_calls w1)
           then Raised AddError (w1\<lparr>add_calls := Suc (add_calls w1)\<rparr>)
           else Done (w1\<lparr>add_calls := Suc (add_calls w1),
                          store := store_add (batch_entries embeddings b) (store w1)\<rparr>))"

section \<open>The full rebuild (\<open>rag_index.build_index\<close>)\<close>

definition export_metadata :: "json \<Rightarrow> json \<Rightarrow> pydict" where
  "export_metadata title role =
     [(lit ''source'', JStr (lit ''chatgpt_export'')),
      (lit ''conversation_title'', title),
      (lit ''role'', role)]"

text \<open>
  The inner loop \<open>for chunk in chunk_text(text)\<close>; the state is the three lists,
  \<open>doc_id\<close> and the world.
\<close>

fun index_chunks ::
  "'v env \<Rightarrow> json \<Rightarrow> json \<Rightarrow> pystr list \<Rightarrow> batch \<Rightarrow> nat \<Rightarrow> 'v world
     \<Rightarrow> (batch \<times> nat \<times> 'v world) outcome" where
  "index_chunks env title role [] b doc_id w = Done (b, doc_id, w)"
| "index_chunks env title role (chunk # rest) b doc_id w =
     (let b1 = \<lparr>docs = docs b @ [chunk],
                metadatas = metadatas b @ [export_metadata title role],
                ids = ids b @ [lit ''chatgpt-'' @ str_nat doc_id]\<rparr>;
          doc_id1 = doc_id + 1
      in if length (docs b1) \<ge> 128
         then (case insert_batch env b1 w of
                 Raised e w' \<Rightarrow> Raised e (b1, doc_id1, w')
               | Done w' \<Rightarrow> index_chunks env title role rest empty_batch doc_id1 w')
         else index_chunks env title role rest b1 doc_id1 w)"

text \<open>
  The outer loop \<open>for title, role, text in iter_chatgpt_messages(export_dir)\<close>, over the
  sequence of messages that the loader yields.
\<close>

fun index_messages ::
  "'v env \<Rightarrow> (json \<times> json \<times> pystr) list \<Rightarrow> batch \<Rightarrow> nat \<Rightarrow> 'v world
     \<Rightarrow> (batch \<times> nat \<times> 'v world) outcome" where
  "index_messages env [] b doc_id w = Done (b, doc_id, w)"
| "index_messages env ((title, role, text) # rest) b doc_id w =
     (case index_chunks env title role (chunk_text text 1000) b doc_id w of
        Raised e s \<Rightarrow> Raised e s
      | Done (b', doc_id', w') \<Rightarrow> index_messages env rest b' doc_id' w')"

text \<open>
  \<open>build_index\<close>: the deletion inside \<open>try ... except Exception: pass\<close>, the two loops,
  the final flush.
\<close>

definition build_index ::
  "'v env \<Rightarrow> (json \<times> json \<times> pystr) list \<Rightarrow> 'v world \<Rightarrow> 'v world outcome" where
  "build_index env messages w =
     (let w1 = (if delete_fails env then w
                else w\<lparr>store := store_delete (lit ''source'') (JStr (lit ''chatgpt_export''))
                                  (store w)\<rparr>)
      in case index_messages env messages empty_batch 0 w1 of
           Raised e (b, doc_id, w2) \<Rightarrow> Raised e w2
         | Done (b, doc_id, w2) \<Rightarrow>
             if docs b \<noteq> [] then insert_batch env b w2 else Done w2)"

section \<open>The rebuild as a sequence of batches\<close>

text \<open>The state that a run leaves behind, whether it completed or raised.\<close>

primrec final :: "'s outcome \<Rightarrow> 's" where
  "final (Done s) = s"
| "final (Raised e s) = s"

text \<open>Batch inserts one after the other; the first exception ends the run.\<close>

fun run_batches :: "'v env \<Rightarrow> batch list \<Rightarrow> 'v world \<Rightarrow> 'v world outcome" where
  "run_batches env [] w = Done w"
| "run_batches env (b # bs) w =
     (case insert_batch env b w of
        Raised e w' \<Rightarrow> Raised e w'
      | Done w' \<Rightarrow> run_batches env bs w')"

text \<open>
  The batches that the loop of \<open>build_index\<close> and its final flush hand to the batch
  insert, for a given sequence of (document, metadata, id) triples: the same recursion
  as the loop, with \<open>n\<close> for the threshold 128, keeping each batch as it is at its flush.
\<close>

fun batches_of :: "nat \<Rightarrow> batch \<Rightarrow> (pystr \<times> pydict \<times> pystr) list \<Rightarrow> batch list" where
  "batches_of n b [] = (if docs b \<noteq> [] then [b] else [])"
| "batches_of n b ((d, m, i) # rest) =
     (let b1 = \<lparr>docs = docs b @ [d], metadatas = metadatas b @ [m], ids = ids b @ [i]\<rparr>
      in if length (docs b1) \<ge> n then b1 # batches_of n empty_batch rest
         else batches_of n b1 rest)"

text \<open>The triples that the two loops of \<open>build_index\<close> append, with \<open>doc_id\<close> counting up.\<close>

fun chunk_records :: "json \<Rightarrow> json \<Rightarrow> nat \<Rightarrow> pystr list \<Rightarrow> (pystr \<times> pydict \<times> pystr) list" where
  "chunk_records title role doc_id [] = []"
| "chunk_records title role doc_id (chunk # rest) =
     (chunk, export_metadata title role, lit ''chatgpt-'' @ str_nat doc_id)
       # chunk_records title role (doc_id + 1) rest"

fun export_records :: "nat \<Rightarrow> (json \<times> json \<times> pystr) list \<Rightarrow> (pystr \<times> pydict \<times> pystr) list" where
  "export_records doc_id [] = []"
| "export_records doc_id ((title, role, text) # rest) =
     chunk_records title role doc_id (chunk_text text 1000)
       @ export_records (doc_id + length (chunk_text text 1000)) rest"

definition export_batches :: "(json \<times> json \<times> pystr) list \<Rightarrow> batch list" where
  "export_batches messages = batches_of 128 empty_batch (export_records 0 messages)"

text \<open>The collection after the given batches have been embedded and added.\<close>

definition add_batches :: "'v env \<Rightarrow> batch list \<Rightarrow> 'v entry list \<Rightarrow> 'v entry list" where
  "add_batches env bs es =
     foldl (\<lambda>s b. store_add (batch_entries (map (embed env) (docs b)) b) s) es bs"

text \<open>The two partitions: entries tagged by the rebuild and by the incremental ingestion.\<close>

definition export_tagged :: "'v entry \<Rightarrow> bool" where
  "export_tagged e \<longleftrightarrow> map_of (metadata e) (lit ''source'') = Some (JStr (lit ''chatgpt_export''))"

definition live_tagged :: "'v entry \<Rightarrow> bool" where
  "live_tagged e \<longleftrightarrow> map_of (metadata e) (lit ''source'') = Some (JStr (lit ''live_cli''))"

text \<open>
  What is left to do once the loops have reached a state, given the triples still to
  come: nothing after an exception, else the remaining batches.
\<close>

fun finish ::
  "'v env \<Rightarrow> (batch \<times> nat \<times> 'v world) outcome \<Rightarrow> (pystr \<times> pydict \<times> pystr) list
     \<Rightarrow> 'v world outcome" where
  "finish env (Done (b, n, w)) items = run_batches env (batches_of 128 b items) w"
| "finish env (Raised e (b, n, w)) items = Raised e w"

text \<open>The world after the first step of \<open>build_index\<close>, the tolerated deletion.\<close>

definition after_delete :: "'v env \<Rightarrow> 'v world \<Rightarrow> 'v world" where
  "after_delete env w =
     (if delete_fails env then w
      else w\<lparr>store := store_delete (lit ''source'') (JStr (lit ''chatgpt_export'')) (store w)\<rparr>)"

section \<open>Incremental ingestion (\<open>ingest_conversations\<close>)\<close>

definition load_state :: "'v world \<Rightarrow> int" where
  "load_state w = (case state_file w of None \<Rightarrow> 0 | Some n \<Rightarrow> n)"

definition save_state :: "int \<Rightarrow> 'v world \<Rightarrow> 'v world" where
  "save_state last_line w = w\<lparr>state_file := Some last_line\<rparr>"

text \<open>
  The loop of \<open>iter_new_records\<close> over \<open>enumerate(f, start=1)\<close>; \<open>i\<close> is the number of
  the line at the head of the list. The generator's yields are collected in a list.
\<close>

fun iter_lines ::
  "(pystr \<Rightarrow> json option) \<Rightarrow> int \<Rightarrow> int \<Rightarrow> pystr list \<Rightarrow> (int \<times> json) list" where
  "iter_lines ld last_line i [] = []"
| "iter_lines ld last_line i (line # rest) =
     (if i \<le> last_line then iter_lines ld last_line (i + 1) rest
      else
        let line' = strip line
        in if line' = [] then iter_lines ld last_line (i + 1) rest
           else (case ld line' of
                   None \<Rightarrow> iter_lines ld last_line (i + 1) rest
                 | Some rec \<Rightarrow> (i, rec) # iter_lines ld last_line (i + 1) rest))"

text \<open>The log \<open>logf\<close> is \<open>None\<close> when the file does not exist.\<close>

definition iter_new_records ::
  "(pystr \<Rightarrow> json option) \<Rightarrow> int \<Rightarrow> pystr list option \<Rightarrow> (int \<times> json) list" where
  "iter_new_records ld last_line logf =
     (case logf of None \<Rightarrow> [] | Some lines \<Rightarrow> iter_lines ld last_line 1 lines)"

text \<open>
  The five reads at the head of the loop body of \<open>main\<close>, in the source's order; the
  first one that raises ends the run.
\<close>

definition read_fields :: "json \<Rightarrow> error + (pystr \<times> pystr \<times> json \<times> json \<times> bool)" where
  "read_fields rec =
     (case py_get rec (lit ''user_prompt'') (JStr []) of Inl e \<Rightarrow> Inl e | Inr up \<Rightarrow>
      case py_strip up of Inl e \<Rightarrow> Inl e | Inr user_prompt \<Rightarrow>
      case py_get rec (lit ''assistant_reply'') (JStr []) of Inl e \<Rightarrow> Inl e | Inr ar \<Rightarrow>
      case py_strip ar of Inl e \<Rightarrow> Inl e | Inr assistant_reply \<Rightarrow>
      case py_get rec (lit ''timestamp'') (JStr []) of Inl e \<Rightarrow> Inl e | Inr timestamp \<Rightarrow>
      case py_get rec (lit ''model'') (JStr []) of Inl e \<Rightarrow> Inl e | Inr model_name \<Rightarrow>
      case py_get rec (lit ''used_rag'') (JBool False) of Inl e \<Rightarrow> Inl e | Inr ur \<Rightarrow>
      Inr (user_prompt, assistant_reply, timestamp, model_name, py_bool ur))"

definition live_text :: "(json \<Rightarrow> pystr) \<Rightarrow> pystr \<Rightarrow> pystr \<Rightarrow> json \<Rightarrow> json \<Rightarrow> bool \<Rightarrow> pystr" where
  "live_text rp user_prompt assistant_reply timestamp model_name used_rag =
     strip (lit ''['' @ py_str rp timestamp @ lit ''] (cli, model='' @ py_str rp model_name
            @ lit '', used_rag='' @ py_str rp (JBool used_rag) @ lit '')\<newline>''
            @ lit ''User:\<newline>'' @ user_prompt @ lit ''\<newline>\<newline>''
            @ lit ''Assistant:\<newline>'' @ assistant_reply @ lit ''\<newline>'')"

definition live_metadata :: "json \<Rightarrow> json \<Rightarrow> bool \<Rightarrow> pydict" where
  "live_metadata timestamp model_name used_rag =
     [(lit ''source'', JStr (lit ''live_cli'')),
      (lit ''timestamp'', timestamp),
      (lit ''model'', model_name),
      (lit ''used_rag'', JBool used_rag)]"

text \<open>
  The loop \<open>for line_no, rec in iter_new_records(last_line)\<close> of \<open>main\<close>; the state is
  the three lists, \<open>new_last_line\<close> and the world.
\<close>

fun ingest_loop ::
  "'v env \<Rightarrow> (int \<times> json) list \<Rightarrow> batch \<Rightarrow> int \<Rightarrow> 'v world
     \<Rightarrow> (batch \<times> int \<times> 'v world) outcome" where
  "ingest_loop env [] b new_last_line w = Done (b, new_last_line, w)"
| "ingest_loop env ((line_no, rec) # rest) b new_last_line w =
     (let nll = max new_last_line line_no
      in case read_fields rec of
           Inl e \<Rightarrow> Raised e (b, nll, w)
         | Inr (user_prompt, assistant_reply, timestamp, model_name, used_rag) \<Rightarrow>
             if user_prompt = [] \<and> assistant_reply = [] then ingest_loop env rest b nll w
             else
               let b1 = \<lparr>docs = docs b @ [live_text (repr env) user_prompt assistant_reply
                                               timestamp model_name used_rag],
                         metadatas = metadatas b @ [live_metadata timestamp model_name used_rag],
                         ids = ids b @ [lit ''live-cli-'' @ str_int line_no]\<rparr>
               in if length (docs b1) \<ge> 64
                  then (case insert_batch env b1 w of
                          Raised e w' \<Rightarrow> Raised e (b1, nll, w')
                        | Done w' \<Rightarrow> ingest_loop env rest empty_batch nll w')
                  else ingest_loop env rest b1 nll w)"

text \<open>\<open>main\<close>: load the cursor, run the loop, flush, save the cursor when it moved.\<close>

definition main :: "'v env \<Rightarrow> pystr list option \<Rightarrow> 'v world \<Rightarrow> 'v world outcome" where
  "main env logf w =
     (let last_line = load_state w
      in case ingest_loop env (iter_new_records (loads env) last_line logf)
                empty_batch last_line w of
           Raised e (b, new_last_line, w1) \<Rightarrow> Raised e w1
         | Done (b, new_last_line, w1) \<Rightarrow>
             (case (if docs b \<noteq> [] then insert_batch env b w1 else Done w1) of
                Raised e w2 \<Rightarrow> Raised e w2
              | Done w2 \<Rightarrow>
                  Done (if new_last_line > last_line then save_state new_last_line w2
                        else w2)))"

section \<open>Auxiliary notions for the incremental ingestion\<close>

text \<open>A pending batch whose metadata all carry the tag of the incremental ingestion.\<close>

definition live_batch :: "batch \<Rightarrow> bool" where
  "live_batch b \<longleftrightarrow>
     (\<forall>m\<in>set (metadatas b). map_of m (lit ''source'') = Some (JStr (lit ''live_cli'')))"

text \<open>A log line that \<open>iter_new_records\<close> skips: blank, or refused by \<open>json.loads\<close>.\<close>

definition noise :: "(pystr \<Rightarrow> json option) \<Rightarrow> pystr \<Rightarrow> bool" where
  "noise ld line \<longleftrightarrow> strip line = [] \<or> ld (strip line) = None"

text \<open>
  The index entry that the loop of \<open>main\<close> and the batch insert make of a kept record,
  from the record's line number and the five fields read from it.
\<close>

definition live_entry ::
  "'v env \<Rightarrow> int \<Rightarrow> pystr \<Rightarrow> pystr \<Rightarrow> json \<Rightarrow> json \<Rightarrow> bool \<Rightarrow> 'v entry" where
  "live_entry env line_no user_prompt assistant_reply timestamp model_name used_rag =
     \<lparr>eid = lit ''live-cli-'' @ str_int line_no,
      embedding = embed env (live_text (repr env) user_prompt assistant_reply timestamp
                               model_name used_rag),
      document = live_text (repr env) user_prompt assistant_reply timestamp model_name used_rag,
      metadata = live_metadata timestamp model_name used_rag\<rparr>"

text \<open>
  An environment for concrete runs: a log line holding one turn, a stand-in for
  \<open>json.loads\<close> that parses this line and refuses every other text, an embedding model
  with a single vector, and no failing call.
\<close>

definition turn_line :: pystr where
  \<open>turn_line = lit ''{"user_prompt": "hi"}''\<close>

definition toy_loads :: "pystr \<Rightarrow> json option" where
  "toy_loads s = (if s = turn_line then Some (JObj [(lit ''user_prompt'', JStr (lit ''hi''))])
                  else None)"

definition toy_env :: "unit env" where
  "toy_env = \<lparr>embed = (\<lambda>s. ()), delete_fails = False, encode_fails = (\<lambda>n. False),
              add_fails = (\<lambda>n. False), loads = toy_loads, repr = (\<lambda>v. [])\<rparr>"

declare str_nat.simps [simp del]

section \<open>Properties of strings and of the chunker\<close>


lemma is_space_nl [simp]: "is_space 10"
  by (simp add: is_space_def)

lemma split_nl_nonempty [simp]: "split_nl s \<noteq> []"
  by (induction s) (auto split: list.split)

lemma join_split_nl [simp]: "py_join [10] (split_nl s) = s"
proof (induction s)
  case Nil
  show ?case by simp
next
  case (Cons c s)
  obtain l ls where sp: "split_nl s = l # ls"
    by (cases "split_nl s") simp_all
  with Cons show ?case
    by (cases ls) auto
qed

lemma split_nl_no_nl: "10 \<notin> set l \<Longrightarrow> split_nl l = [l]"
  by (induction l) auto

lemma split_nl_append: "10 \<notin> set l \<Longrightarrow> split_nl (l @ 10 # s) = l # split_nl s"
  by (induction l) auto

lemma split_join_nl:
  "ls \<noteq> [] \<Longrightarrow> \<forall>l\<in>set ls. 10 \<notin> set l \<Longrightarrow> split_nl (py_join [10] ls) = ls"
proof (induction "[10::nat]" ls rule: py_join.induct)
  case 1
  then show ?case by simp
next
  case (2 l)
  then show ?case by (simp add: split_nl_no_nl)
next
  case (3 l v va)
  then show ?case by (simp add: split_nl_append)
qed

lemma filter_dropWhile_not: "filter (\<lambda>c. \<not> P c) (dropWhile P s) = filter (\<lambda>c. \<not> P c) s"
  by (induction s) auto

lemma filter_strip [simp]:
  "filter (\<lambda>c. \<not> is_space c) (strip s) = filter (\<lambda>c. \<not> is_space c) s"
proof -
  have "filter (\<lambda>c. \<not> is_space c) (rstrip t) = filter (\<lambda>c. \<not> is_space c) t" for t
    unfolding rstrip_def
    by (metis filter_dropWhile_not rev_filter rev_rev_ident)
  then show ?thesis
    by (simp add: strip_def lstrip_def filter_dropWhile_not)
qed

lemma strip_id:
  assumes "s \<noteq> []" "\<not> is_space (hd s)" "\<not> is_space (last s)"
  shows "strip s = s"
proof -
  have l: "lstrip s = s"
    using assms(1,2) by (cases s) (simp_all add: lstrip_def)
  have "dropWhile is_space (rev s) = rev s"
    using assms(1,3) by (cases "rev s") (auto simp: last_rev hd_rev)
  then show ?thesis
    by (simp add: strip_def l rstrip_def)
qed

lemma strip_clean: "strip s = [] \<or> (\<not> is_space (hd (strip s)) \<and> \<not> is_space (last (strip s)))"
proof (cases "strip s = []")
  case True
  then show ?thesis by simp
next
  case False
  define t where "t = lstrip s"
  have st: "strip s = rev (dropWhile is_space (rev t))"
    by (simp add: strip_def rstrip_def t_def)
  have tne: "t \<noteq> []" using False st by auto
  have hdt: "\<not> is_space (hd t)"
    using tne unfolding t_def lstrip_def by (simp add: hd_dropWhile)
  have dne: "dropWhile is_space (rev t) \<noteq> []" using False st by simp
  have lastok: "\<not> is_space (last (strip s))"
    using dne by (simp add: st last_rev hd_dropWhile)
  have "t = strip s @ rev (takeWhile is_space (rev t))"
    by (metis st rev_append rev_rev_ident takeWhile_dropWhile_id)
  then have "hd t = hd (strip s)"
    using False by (metis hd_append2)
  with hdt lastok show ?thesis by simp
qed

lemma strip_strip [simp]: "strip (strip s) = strip s"
proof (cases "strip s = []")
  case True
  have "strip [] = []" by (simp add: strip_def lstrip_def rstrip_def)
  with True show ?thesis by simp
next
  case False
  with strip_clean[of s] show ?thesis by (simp add: strip_id)
qed

lemma chunk_loop_groups:
  "chunk_loop mx ls chunks cur = chunks @ map (\<lambda>g. strip (py_join [10] g)) (group_lines mx ls cur)"
  by (induction ls arbitrary: chunks cur) auto

lemma concat_group_lines: "concat (group_lines mx ls cur) = cur @ ls"
  by (induction ls arbitrary: cur) auto

lemma group_lines_nonempty: "[] \<notin> set (group_lines mx ls cur)"
  by (induction ls arbitrary: cur) auto

lemma filter_join_nl:
  "filter (\<lambda>c. \<not> is_space c) (py_join [10] ls) = concat (map (filter (\<lambda>c. \<not> is_space c)) ls)"
  by (induction "[10::nat]" ls rule: py_join.induct) simp_all

lemma py_join_append:
  "a \<noteq> [] \<Longrightarrow> b \<noteq> [] \<Longrightarrow> py_join sep (a @ b) = py_join sep a @ sep @ py_join sep b"
proof (induction sep a rule: py_join.induct)
  case (1 sep)
  then show ?case by simp
next
  case (2 sep l)
  then show ?case by (cases b) simp_all
next
  case (3 sep l v va)
  then show ?case by simp
qed

lemma join_join_nl:
  "[] \<notin> set gs \<Longrightarrow> py_join [10] (map (py_join [10]) gs) = py_join [10] (concat gs)"
proof (induction gs)
  case Nil
  then show ?case by simp
next
  case (Cons g gs)
  show ?case
  proof (cases gs)
    case Nil
    then show ?thesis by simp
  next
    case (Cons h hs)
    have "concat gs \<noteq> []" using Cons Cons.prems by auto
    moreover have "g \<noteq> []" using Cons.prems by auto
    ultimately show ?thesis
      using Cons.IH Cons.prems Cons by (simp add: py_join_append)
  qed
qed

lemma join_clean:
  "g \<noteq> [] \<Longrightarrow> \<forall>l\<in>set g. clean_line l \<Longrightarrow> clean_line (py_join [10] g)"
proof (induction "[10::nat]" g rule: py_join.induct)
  case 1
  then show ?case by simp
next
  case (2 l)
  then show ?case by simp
next
  case (3 l v va)
  then have "clean_line (py_join [10] (v # va))" and "clean_line l" by simp_all
  then show ?case by (auto simp: clean_line_def)
qed

lemma group_lines_no_flush:
  "int (sum_list (map length (cur @ ls))) + 1 \<le> mx \<Longrightarrow>
   group_lines mx ls cur = (if cur @ ls = [] then [] else [cur @ ls])"
  by (induction ls arbitrary: cur) auto

lemma chunk_text_groups:
  "strip (replace_crlf T) \<noteq> [] \<Longrightarrow>
   chunk_text T B = map (\<lambda>g. strip (py_join [10] g)) (group_lines B (split_nl (strip (replace_crlf T))) [])"
  by (simp add: chunk_text_def chunk_loop_groups)

lemma chunk_text_empty: "strip (replace_crlf T) = [] \<Longrightarrow> chunk_text T B = []"
  by (simp add: chunk_text_def)

lemma strip_Nil [simp]: "strip [] = []"
  by (simp add: strip_def lstrip_def rstrip_def)

lemma concat_map_concat_groups:
  "concat (map (\<lambda>g. concat (map f g)) gs) = concat (map f (concat gs))"
  by (induction gs) simp_all

lemma roundtrip_up_to_space:
  "filter (\<lambda>c. \<not> is_space c) (strip (py_join [10] (chunk_text T B)))
     = filter (\<lambda>c. \<not> is_space c) (strip (replace_crlf T))"
proof (cases "strip (replace_crlf T) = []")
  case True
  then show ?thesis by (simp add: chunk_text_empty)
next
  case False
  define gs where "gs = group_lines B (split_nl (strip (replace_crlf T))) []"
  have "filter (\<lambda>c. \<not> is_space c) (py_join [10] (chunk_text T B))
          = concat (map (filter (\<lambda>c. \<not> is_space c)) (concat gs))"
    by (simp add: chunk_text_groups[OF False] gs_def[symmetric] filter_join_nl
        comp_def concat_map_concat_groups)
  also have "concat gs = split_nl (strip (replace_crlf T))"
    by (simp add: gs_def concat_group_lines)
  also have "concat (map (filter (\<lambda>c. \<not> is_space c)) (split_nl (strip (replace_crlf T))))
          = filter (\<lambda>c. \<not> is_space c) (py_join [10] (split_nl (strip (replace_crlf T))))"
    by (simp only: filter_join_nl)
  finally show ?thesis by simp
qed

lemma roundtrip_clean:
  assumes "\<forall>l\<in>set (split_nl (strip (replace_crlf T))). clean_line l"
  shows "strip (py_join [10] (chunk_text T B)) = strip (replace_crlf T)"
proof -
  define T' where "T' = strip (replace_crlf T)"
  define gs where "gs = group_lines B (split_nl T') []"
  have ne: "T' \<noteq> []"
  proof
    assume "T' = []"
    then have "[] \<in> set (split_nl T')" by simp
    with assms show False by (auto simp: T'_def clean_line_def)
  qed
  have cat: "concat gs = split_nl T'" by (simp add: gs_def concat_group_lines)
  have gne: "[] \<notin> set gs" by (simp add: gs_def group_lines_nonempty)
  have "\<forall>g\<in>set gs. strip (py_join [10] g) = py_join [10] g"
  proof
    fix g assume g: "g \<in> set gs"
    then have "g \<noteq> []" using gne by auto
    moreover have "\<forall>l\<in>set g. clean_line l"
      using g cat assms by (metis T'_def UN_I set_concat)
    ultimately have "clean_line (py_join [10] g)" by (rule join_clean)
    then show "strip (py_join [10] g) = py_join [10] g"
      by (simp add: clean_line_def strip_id)
  qed
  then have "map (\<lambda>g. strip (py_join [10] g)) gs = map (py_join [10]) gs" by simp
  then have "chunk_text T B = map (py_join [10]) gs"
    using ne by (simp add: chunk_text_groups T'_def[symmetric] gs_def[symmetric])
  then have "py_join [10] (chunk_text T B) = T'"
    using gne by (simp add: join_join_nl cat)
  then show ?thesis by (simp add: T'_def)
qed

lemma roundtrip_one_chunk:
  assumes "int (sum_list (map length (split_nl (strip (replace_crlf T))))) + 1 \<le> B"
  shows "chunk_text T B = (if strip (replace_crlf T) = [] then [] else [strip (replace_crlf T)])"
proof (cases "strip (replace_crlf T) = []")
  case True
  then show ?thesis by (simp add: chunk_text_empty)
next
  case False
  show ?thesis
    using assms False
    by (simp add: chunk_text_groups[OF False] group_lines_no_flush)
qed

lemma replace_crlf_id: "13 \<notin> set s \<Longrightarrow> replace_crlf s = s"
  by (induction s rule: replace_crlf.induct) auto



lemma set_py_join: "set (py_join sep ls) \<subseteq> set sep \<union> \<Union> (set ` set ls)"
  by (induction sep ls rule: py_join.induct) auto

lemma length_join_nl:
  "ls \<noteq> [] \<Longrightarrow> length (py_join [10] ls) + 1 = sum_list (map length ls) + length ls"
  by (induction "[10::nat]" ls rule: py_join.induct) simp_all

lemma chunk_text_one_group:
  assumes ne: "ls \<noteq> []"
    and cl: "\<forall>l\<in>set ls. clean_line l \<and> 10 \<notin> set l \<and> 13 \<notin> set l"
    and fit: "int (sum_list (map length ls)) + 1 \<le> B"
  shows "chunk_text (py_join [10] ls) B = [py_join [10] ls]"
proof -
  have "13 \<notin> set (py_join [10] ls)"
    using set_py_join[of "[10]" ls] cl by auto
  then have r: "replace_crlf (py_join [10] ls) = py_join [10] ls"
    by (rule replace_crlf_id)
  have c: "clean_line (py_join [10] ls)"
    using ne cl by (simp add: join_clean)
  then have s: "strip (py_join [10] ls) = py_join [10] ls"
    by (simp add: clean_line_def strip_id)
  have sp: "split_nl (py_join [10] ls) = ls"
    using ne cl by (simp add: split_join_nl)
  have "py_join [10] ls \<noteq> []" using c by (simp add: clean_line_def)
  then show ?thesis
    using fit ne by (simp add: chunk_text_def r s sp chunk_loop_groups group_lines_no_flush)
qed


text \<open>
  C3 (chunk length bound). The test before a line is appended counts the characters of
  the lines in \<open>current\<close> but not the newlines that join them, so a chunk of several
  lines can be longer than \<open>max_chars\<close> although no line is: 600 lines of one character
  under the default bound 1000 make one chunk of 1199 characters, and four lines of one
  character under the bound 5 make one chunk of 7 characters.
\<close>

theorem chunk_text_exceeds_bound:
  "chunk_text (py_join [10] (replicate 600 (lit ''a''))) 1000
     = [py_join [10] (replicate 600 (lit ''a''))]
   \<and> length (py_join [10] (replicate 600 (lit ''a''))) = 1199
   \<and> split_nl (strip (replace_crlf (py_join [10] (replicate 600 (lit ''a'')))))
     = replicate 600 (lit ''a'')
   \<and> chunk_text (lit ''a\<newline>b\<newline>c\<newline>d'') 5 = [lit ''a\<newline>b\<newline>c\<newline>d'']
   \<and> length (lit ''a\<newline>b\<newline>c\<newline>d'') = 7"
proof -
  let ?ls = "replicate 600 (lit ''a'')"
  have cl: "\<forall>l\<in>set ?ls. clean_line l \<and> 10 \<notin> set l \<and> 13 \<notin> set l"
    by (simp add: lit_def clean_line_def is_space_def)
  have a: "chunk_text (py_join [10] ?ls) 1000 = [py_join [10] ?ls]"
    by (rule chunk_text_one_group) (simp_all add: lit_def clean_line_def is_space_def sum_list_replicate)
  have "length (py_join [10] ?ls) + 1 = 1200"
    by (subst length_join_nl) (simp_all add: lit_def sum_list_replicate)
  then have b: "length (py_join [10] ?ls) = 1199" by simp
  have "13 \<notin> set (py_join [10] ?ls)"
    using set_py_join[of "[10]" ?ls] by (auto simp: lit_def)
  then have r: "replace_crlf (py_join [10] ?ls) = py_join [10] ?ls"
    by (rule replace_crlf_id)
  have "clean_line (py_join [10] ?ls)"
    using cl by (intro join_clean) simp_all
  then have s: "strip (py_join [10] ?ls) = py_join [10] ?ls"
    by (simp add: clean_line_def strip_id)
  have c: "split_nl (strip (replace_crlf (py_join [10] ?ls))) = ?ls"
    unfolding r s using cl by (intro split_join_nl) simp_all
  have d: "chunk_text (lit ''a\<newline>b\<newline>c\<newline>d'') 5 = [lit ''a\<newline>b\<newline>c\<newline>d'']"
    by (simp add: chunk_text_def lit_def strip_def lstrip_def rstrip_def is_space_def)
  have e: "length (lit ''a\<newline>b\<newline>c\<newline>d'') = 7"
    by (simp add: lit_def)
  from a b c d e show ?thesis by simp
qed

text \<open>
  C8 (every chunk is non-empty). A group of lines that holds only blank lines is flushed
  like any other, and its join strips to the empty string: two paragraphs of 1000
  characters with a blank line between them give, under the default bound 1000, the
  three chunks paragraph, empty string, paragraph; so does \<open>a\<close>, blank line, \<open>b\<close>
  under the bound 1.
\<close>

theorem chunk_text_empty_chunk:
  "chunk_text (replicate 1000 120 @ 10 # 10 # replicate 1000 121) 1000
     = [replicate 1000 120, [], replicate 1000 121]
   \<and> chunk_text (lit ''a\<newline>\<newline>b'') 1 = [lit ''a'', [], lit ''b'']"
proof -
  let ?x = "replicate 1000 (120::nat)" and ?y = "replicate 1000 (121::nat)"
  let ?T = "?x @ 10 # 10 # ?y"
  have r: "replace_crlf ?T = ?T" by (rule replace_crlf_id) simp
  have s: "strip ?T = ?T"
    by (rule strip_id) (simp_all add: is_space_def hd_append)
  have sp: "split_nl ?T = [?x, [], ?y]"
    using split_nl_append[of ?x "10 # ?y"] split_nl_append[of "[]" ?y] split_nl_no_nl[of ?y]
    by simp
  have sx: "strip ?x = ?x" by (rule strip_id) (simp_all add: is_space_def)
  have sy: "strip ?y = ?y" by (rule strip_id) (simp_all add: is_space_def)
  have big: "chunk_text ?T 1000 = [?x, [], ?y]"
    by (simp add: chunk_text_def r s sp sx sy)
  have small: "chunk_text (lit ''a\<newline>\<newline>b'') 1 = [lit ''a'', [], lit ''b'']"
    by (simp add: chunk_text_def lit_def strip_def lstrip_def rstrip_def is_space_def)
  from big small show ?thesis by simp
qed

text \<open>
  C4 (chunk round-trip), as the claim states it, fails: every chunk is stripped on its
  own, so whitespace next to a chunk boundary is lost. With the bound 1 the text
  \<open>a\<close>, space, newline, space, \<open>b\<close> gives the chunks \<open>a\<close> and \<open>b\<close>, whose join has
  lost both spaces.
\<close>

theorem chunk_roundtrip_counterexample:
  "strip (py_join [10] (chunk_text (lit ''a \<newline> b'') 1))
     \<noteq> strip (replace_crlf (lit ''a \<newline> b''))"
  by (simp add: chunk_text_def lit_def strip_def lstrip_def rstrip_def is_space_def)

text \<open>
  C4 as amended. The chunks are made by cutting the lines of the normalised, stripped
  text into consecutive non-empty groups, joining each group with newlines and stripping
  each joined group on its own. Joining the unstripped groups with newlines gives the
  normalised, stripped text back exactly, so the join of the chunks differs from it only
  by the whitespace that \<open>strip\<close> removes at the start or the end of a group, that is,
  whitespace touching a chunk boundary. In particular the characters that are not
  whitespace are the same, in the same order, and the reproduction is exact when every
  line of the normalised, stripped text is non-empty and neither starts nor ends with
  whitespace, and when the lines fit one chunk (their lengths sum to less than \<open>B\<close>).
\<close>

theorem chunk_roundtrip_amended:
  "(\<exists>gs. [] \<notin> set gs
      \<and> concat gs = (if strip (replace_crlf T) = [] then []
                     else split_nl (strip (replace_crlf T)))
      \<and> chunk_text T B = map (\<lambda>g. strip (py_join [10] g)) gs
      \<and> py_join [10] (map (py_join [10]) gs) = strip (replace_crlf T))
   \<and> filter (\<lambda>c. \<not> is_space c) (strip (py_join [10] (chunk_text T B)))
     = filter (\<lambda>c. \<not> is_space c) (strip (replace_crlf T))
   \<and> ((\<forall>l\<in>set (split_nl (strip (replace_crlf T))). clean_line l) \<longrightarrow>
        strip (py_join [10] (chunk_text T B)) = strip (replace_crlf T))
   \<and> (int (sum_list (map length (split_nl (strip (replace_crlf T))))) + 1 \<le> B \<longrightarrow>
        strip (py_join [10] (chunk_text T B)) = strip (replace_crlf T))"
proof (intro conjI impI)
  show "\<exists>gs. [] \<notin> set gs
      \<and> concat gs = (if strip (replace_crlf T) = [] then []
                     else split_nl (strip (replace_crlf T)))
      \<and> chunk_text T B = map (\<lambda>g. strip (py_join [10] g)) gs
      \<and> py_join [10] (map (py_join [10]) gs) = strip (replace_crlf T)"
  proof (cases "strip (replace_crlf T) = []")
    case True
    then show ?thesis
      by (intro exI[of _ "[]"]) (simp add: chunk_text_empty)
  next
    case False
    let ?gs = "group_lines B (split_nl (strip (replace_crlf T))) []"
    have ne: "[] \<notin> set ?gs" by (rule group_lines_nonempty)
    have cat: "concat ?gs = split_nl (strip (replace_crlf T))"
      by (simp add: concat_group_lines)
    have ch: "chunk_text T B = map (\<lambda>g. strip (py_join [10] g)) ?gs"
      using False by (rule chunk_text_groups)
    have "py_join [10] (map (py_join [10]) ?gs) = py_join [10] (concat ?gs)"
      using ne by (rule join_join_nl)
    then have jn: "py_join [10] (map (py_join [10]) ?gs) = strip (replace_crlf T)"
      by (simp add: cat)
    from ne cat ch jn False show ?thesis
      by (intro exI[of _ ?gs]) simp
  qed
next
  show "filter (\<lambda>c. \<not> is_space c) (strip (py_join [10] (chunk_text T B)))
     = filter (\<lambda>c. \<not> is_space c) (strip (replace_crlf T))"
    by (rule roundtrip_up_to_space)
next
  assume "\<forall>l\<in>set (split_nl (strip (replace_crlf T))). clean_line l"
  then show "strip (py_join [10] (chunk_text T B)) = strip (replace_crlf T)"
    by (rule roundtrip_clean)
next
  assume "int (sum_list (map length (split_nl (strip (replace_crlf T))))) + 1 \<le> B"
  then have "chunk_text T B = (if strip (replace_crlf T) = [] then [] else [strip (replace_crlf T)])"
    by (rule roundtrip_one_chunk)
  then show "strip (py_join [10] (chunk_text T B)) = strip (replace_crlf T)"
    by simp
qed

theorem chunk_roundtrip_amended_witness:
  "split_nl (strip (replace_crlf [97, 32, 98, 13, 10, 99])) = [[97, 32, 98], [99]]
   \<and> clean_line [97, 32, 98] \<and> clean_line [99]
   \<and> int (sum_list (map length [[97, 32, 98], [99::nat]])) + 1 \<le> 1000
   \<and> chunk_text [97, 32, 98, 13, 10, 99] 1000 = [[97, 32, 98, 10, 99]]
   \<and> chunk_text [97, 32, 98, 13, 10, 99] 1 = [[97, 32, 98], [99]]
   \<and> strip (py_join [10] (chunk_text [97, 32, 98, 13, 10, 99] 1000)) = [97, 32, 98, 10, 99]
   \<and> strip (py_join [10] (chunk_text [97, 32, 98, 13, 10, 99] 1)) = [97, 32, 98, 10, 99]"
proof -
  have n: "strip (replace_crlf [97, 32, 98, 13, 10, 99]) = [97, 32, 98, 10, 99]"
    by (simp add: strip_def lstrip_def rstrip_def is_space_def)
  have sp: "split_nl [97, 32, 98, 10, 99] = [[97, 32, 98], [99]]"
    by simp
  have cl: "clean_line [97, 32, 98]" "clean_line [99]"
    by (simp_all add: clean_line_def is_space_def)
  have c1000: "chunk_text [97, 32, 98, 13, 10, 99] 1000 = [[97, 32, 98, 10, 99]]"
    by (simp add: chunk_text_def strip_def lstrip_def rstrip_def is_space_def)
  have c1: "chunk_text [97, 32, 98, 13, 10, 99] 1 = [[97, 32, 98], [99]]"
    by (simp add: chunk_text_def strip_def lstrip_def rstrip_def is_space_def)
  have r1000: "strip (py_join [10] (chunk_text [97, 32, 98, 13, 10, 99] 1000))
      = strip (replace_crlf [97, 32, 98, 13, 10, 99])"
    using chunk_roundtrip_amended[of "[97, 32, 98, 13, 10, 99]" 1000]
    unfolding n sp by simp
  have r1: "strip (py_join [10] (chunk_text [97, 32, 98, 13, 10, 99] 1))
      = strip (replace_crlf [97, 32, 98, 13, 10, 99])"
    using chunk_roundtrip_amended[of "[97, 32, 98, 13, 10, 99]" 1] cl
    unfolding n sp by simp
  from n sp cl c1000 c1 r1000 r1 show ?thesis by simp
qed

section \<open>Properties of the context assembler\<close>

lemma total_len_simps [simp]:
  "total_len [] = 0" "total_len (p # ps) = int (length p) + total_len ps"
  by (simp_all add: total_len_def)

lemma pack_loop_prefix:
  "\<exists>n\<le>length zs.
     pack_loop rp mx zs acc tot = acc @ take n (map (\<lambda>(doc, meta). format_piece rp doc meta) zs)
     \<and> (0 < n \<longrightarrow> tot + total_len (take n (map (\<lambda>(doc, meta). format_piece rp doc meta) zs)) \<le> mx)
     \<and> (n < length zs \<longrightarrow>
           tot + total_len (take (Suc n) (map (\<lambda>(doc, meta). format_piece rp doc meta) zs)) > mx)"
proof (induction zs arbitrary: acc tot)
  case Nil
  show ?case by simp
next
  case (Cons z zs)
  obtain doc meta where z: "z = (doc, meta)" by (cases z)
  let ?p = "format_piece rp doc meta"
  let ?f = "\<lambda>(doc, meta). format_piece rp doc meta"
  show ?case
  proof (cases "tot + int (length ?p) > mx")
    case True
    then show ?thesis
      by (intro exI[of _ 0]) (simp add: z)
  next
    case False
    from Cons.IH[of "acc @ [?p]" "tot + int (length ?p)"]
    obtain n where n: "n \<le> length zs"
      and r: "pack_loop rp mx zs (acc @ [?p]) (tot + int (length ?p)) = (acc @ [?p]) @ take n (map ?f zs)"
      and le: "0 < n \<longrightarrow> tot + int (length ?p) + total_len (take n (map ?f zs)) \<le> mx"
      and gt: "n < length zs \<longrightarrow> tot + int (length ?p) + total_len (take (Suc n) (map ?f zs)) > mx"
      by blast
    have le': "tot + int (length ?p) + total_len (take n (map ?f zs)) \<le> mx"
      using le False by (cases n) simp_all
    show ?thesis
      using n r le' gt False
      by (intro exI[of _ "Suc n"]) (simp add: z add.assoc)
  qed
qed


lemma retrieve_context_prefix:
  "\<exists>n\<le>length (pieces rp ds ms).
     retrieve_context rp ds ms mx
       = (if n = 0 then [] else header @ py_join (lit ''\<newline>\<newline>'') (take n (pieces rp ds ms)))
     \<and> (0 < n \<longrightarrow> total_len (take n (pieces rp ds ms)) \<le> mx)
     \<and> (n < length (pieces rp ds ms) \<longrightarrow> total_len (take (Suc n) (pieces rp ds ms)) > mx)"
proof -
  from pack_loop_prefix[of "zip ds ms" rp mx "[]" 0]
  obtain n where n: "n \<le> length (zip ds ms)"
    and r: "pack_loop rp mx (zip ds ms) [] 0 = take n (pieces rp ds ms)"
    and le: "0 < n \<longrightarrow> total_len (take n (pieces rp ds ms)) \<le> mx"
    and gt: "n < length (zip ds ms) \<longrightarrow> total_len (take (Suc n) (pieces rp ds ms)) > mx"
    unfolding pieces_def by auto
  have "retrieve_context rp ds ms mx
       = (if n = 0 then [] else header @ py_join (lit ''\<newline>\<newline>'') (take n (pieces rp ds ms)))"
  proof (cases "n = 0")
    case True
    then show ?thesis by (simp add: retrieve_context_def r)
  next
    case False
    then have "take n (pieces rp ds ms) \<noteq> []"
      using n by (auto simp: pieces_def)
    then show ?thesis using False by (simp add: retrieve_context_def r)
  qed
  then show ?thesis
    using n le gt by (intro exI[of _ n]) (simp add: pieces_def)
qed



text \<open>
  C7 (greedy budgeted packing). The pieces that \<open>retrieve_context\<close> returns are a prefix
  of the formatted candidates: the first \<open>n\<close> of them, where the first \<open>n\<close> fit the
  budget and, when a candidate is left, the first \<open>n + 1\<close> do not, so packing stops at
  the first piece that does not fit and no later piece is taken. With pieces of lengths
  30, 30 and 10 and the budget 50 the result is the header and the first piece alone;
  with no candidate it is the empty string.
\<close>

theorem retrieve_context_greedy:
  "(\<exists>n\<le>length (pieces rp ds ms).
       retrieve_context rp ds ms mx
         = (if n = 0 then []
            else header @ py_join (lit ''\<newline>\<newline>'') (take n (pieces rp ds ms)))
       \<and> (0 < n \<longrightarrow> total_len (take n (pieces rp ds ms)) \<le> mx)
       \<and> (n < length (pieces rp ds ms) \<longrightarrow> total_len (take (Suc n) (pieces rp ds ms)) > mx))
   \<and> (map length (pieces rp ds ms) = [30, 30, 10] \<longrightarrow>
        retrieve_context rp ds ms 50 = header @ hd (pieces rp ds ms)
        \<and> retrieve_context rp ds ms 50 \<noteq> [])
   \<and> retrieve_context rp [] [] mx = []"
proof (intro conjI impI)
  show "\<exists>n\<le>length (pieces rp ds ms).
       retrieve_context rp ds ms mx
         = (if n = 0 then []
            else header @ py_join (lit ''\<newline>\<newline>'') (take n (pieces rp ds ms)))
       \<and> (0 < n \<longrightarrow> total_len (take n (pieces rp ds ms)) \<le> mx)
       \<and> (n < length (pieces rp ds ms) \<longrightarrow> total_len (take (Suc n) (pieces rp ds ms)) > mx)"
    by (rule retrieve_context_prefix)
next
  assume len: "map length (pieces rp ds ms) = [30, 30, 10]"
  then obtain p1 p2 p3 where ps: "pieces rp ds ms = [p1, p2, p3]"
    and l: "length p1 = 30" "length p2 = 30" "length p3 = 10"
    by (auto simp: map_eq_Cons_conv)
  have "\<exists>n\<le>length [p1, p2, p3].
       retrieve_context rp ds ms 50
         = (if n = 0 then []
            else header @ py_join (lit ''\<newline>\<newline>'') (take n [p1, p2, p3]))
       \<and> (0 < n \<longrightarrow> total_len (take n [p1, p2, p3]) \<le> 50)
       \<and> (n < length [p1, p2, p3] \<longrightarrow> total_len (take (Suc n) [p1, p2, p3]) > 50)"
    using retrieve_context_prefix[of rp ds ms 50] unfolding ps .
  then obtain n where n0: "n \<le> length [p1, p2, p3]"
    and r: "retrieve_context rp ds ms 50
         = (if n = 0 then [] else header @ py_join (lit ''\<newline>\<newline>'') (take n [p1, p2, p3]))"
    and le: "0 < n \<longrightarrow> total_len (take n [p1, p2, p3]) \<le> 50"
    and gt0: "n < length [p1, p2, p3] \<longrightarrow> total_len (take (Suc n) [p1, p2, p3]) > 50"
    by blast
  have n: "n \<le> 3" using n0 by simp
  have gt: "n < 3 \<longrightarrow> total_len (take (Suc n) [p1, p2, p3]) > 50" using gt0 by simp
  from n consider "n = 0" | "n = 1" | "n = 2" | "n = 3" by linarith
  then have n1: "n = 1"
  proof cases
    case 1
    with gt l show ?thesis by simp
  next
    case 2
    then show ?thesis .
  next
    case 3
    with le l show ?thesis by (simp add: numeral_2_eq_2)
  next
    case 4
    with le l show ?thesis by (simp add: numeral_3_eq_3)
  qed
  show "retrieve_context rp ds ms 50 = header @ hd (pieces rp ds ms)"
    using r n1 ps by simp
  then show "retrieve_context rp ds ms 50 \<noteq> []"
    by (simp add: header_def lit_def)
next
  show "retrieve_context rp [] [] mx = []"
    by (simp add: retrieve_context_def)
qed

theorem retrieve_context_greedy_witness:
  "map length (pieces (\<lambda>v. [])
       [lit ''hello world'', lit ''HELLO WORLD'', lit ''ok'']
       [[(lit ''role'', JStr (lit ''user''))], [(lit ''role'', JStr (lit ''user''))],
        [(lit ''conversation_title'', JStr []), (lit ''role'', JStr [])]]) = [30, 30, 10]
   \<and> retrieve_context (\<lambda>v. [])
       [lit ''hello world'', lit ''HELLO WORLD'', lit ''ok'']
       [[(lit ''role'', JStr (lit ''user''))], [(lit ''role'', JStr (lit ''user''))],
        [(lit ''conversation_title'', JStr []), (lit ''role'', JStr [])]] 50
     = header @ lit ''[unknown] (user):\<newline>hello world\<newline>''"
proof -
  let ?ds = "[lit ''hello world'', lit ''HELLO WORLD'', lit ''ok'']"
  let ?ms = "[[(lit ''role'', JStr (lit ''user''))], [(lit ''role'', JStr (lit ''user''))],
        [(lit ''conversation_title'', JStr []), (lit ''role'', JStr [])]]"
  have ps: "pieces (\<lambda>v. []) ?ds ?ms
      = [lit ''[unknown] (user):\<newline>hello world\<newline>'',
         lit ''[unknown] (user):\<newline>HELLO WORLD\<newline>'',
         lit ''[] ():\<newline>ok\<newline>'']"
    by (simp add: pieces_def format_piece_def dict_get_def lit_def)
  have len: "map length (pieces (\<lambda>v. []) ?ds ?ms) = [30, 30, 10]"
    unfolding ps by (simp add: lit_def)
  show ?thesis
    using retrieve_context_greedy[of "\<lambda>v. []" ?ds ?ms 50] len
    by (simp add: ps)
qed



section \<open>Properties of the rebuild\<close>

lemma finish_index_chunks:
  "finish env (index_chunks env title role cs b n w) items
     = run_batches env (batches_of 128 b (chunk_records title role n cs @ items)) w"
proof (induction cs arbitrary: b n w)
  case Nil
  show ?case by simp
next
  case (Cons c cs)
  show ?case
    by (simp add: Let_def Cons.IH split: outcome.split)
qed

lemma index_chunks_doc_id:
  "index_chunks env title role cs b n w = Done (b', n', w') \<Longrightarrow> n' = n + length cs"
proof (induction cs arbitrary: b n w)
  case Nil
  then show ?case by simp
next
  case (Cons c cs)
  let ?b1 = "\<lparr>docs = docs b @ [c], metadatas = metadatas b @ [export_metadata title role],
             ids = ids b @ [lit ''chatgpt-'' @ str_nat n]\<rparr>"
  show ?case
  proof (cases "length (docs ?b1) \<ge> 128")
    case True
    with Cons.prems obtain w1 where "insert_batch env ?b1 w = Done w1"
      and "index_chunks env title role cs empty_batch (n + 1) w1 = Done (b', n', w')"
      by (auto simp: Let_def split: outcome.splits)
    then show ?thesis using Cons.IH by fastforce
  next
    case False
    with Cons.prems have "index_chunks env title role cs ?b1 (n + 1) w = Done (b', n', w')"
      by (auto simp: Let_def)
    then show ?thesis using Cons.IH by fastforce
  qed
qed

lemma finish_index_messages:
  "finish env (index_messages env msgs b n w) items
     = run_batches env (batches_of 128 b (export_records n msgs @ items)) w"
proof (induction msgs arbitrary: b n w items)
  case Nil
  show ?case by simp
next
  case (Cons msg msgs)
  obtain title role body where msg: "msg = (title, role, body)" by (cases msg)
  let ?cs = "chunk_text body 1000"
  show ?case
  proof (cases "index_chunks env title role ?cs b n w")
    case (Done s)
    obtain b' n' w' where s: "s = (b', n', w')" by (cases s)
    have n': "n' = n + length ?cs" using Done s by (auto dest: index_chunks_doc_id)
    have "finish env (index_messages env (msg # msgs) b n w) items
        = finish env (index_messages env msgs b' n' w') items"
      by (simp add: msg Done s)
    also have "\<dots> = run_batches env (batches_of 128 b' (export_records n' msgs @ items)) w'"
      by (rule Cons.IH)
    also have "\<dots> = finish env (index_chunks env title role ?cs b n w) (export_records n' msgs @ items)"
      by (simp add: Done s)
    also have "\<dots> = run_batches env (batches_of 128 b (chunk_records title role n ?cs @ export_records n' msgs @ items)) w"
      by (rule finish_index_chunks)
    finally show ?thesis by (simp add: msg n')
  next
    case (Raised e s)
    obtain b' n' w' where s: "s = (b', n', w')" by (cases s)
    have "finish env (index_messages env (msg # msgs) b n w) items = Raised e w'"
      by (simp add: msg Raised s)
    also have "\<dots> = finish env (index_chunks env title role ?cs b n w)
                        (export_records (n + length ?cs) msgs @ items)"
      by (simp add: Raised s)
    also have "\<dots> = run_batches env (batches_of 128 b
          (chunk_records title role n ?cs @ export_records (n + length ?cs) msgs @ items)) w"
      by (rule finish_index_chunks)
    finally show ?thesis by (simp add: msg)
  qed
qed

lemma build_index_batches:
  "build_index env msgs w = run_batches env (export_batches msgs) (after_delete env w)"
proof -
  let ?w1 = "after_delete env w"
  have "build_index env msgs w = finish env (index_messages env msgs empty_batch 0 ?w1) []"
    by (cases "index_messages env msgs empty_batch 0 ?w1")
      (auto simp: build_index_def after_delete_def Let_def split: outcome.splits)
  then show ?thesis
    by (simp add: finish_index_messages export_batches_def)
qed


lemma insert_batch_ok:
  "\<not> encode_fails env (encode_calls w) \<Longrightarrow> \<not> add_fails env (add_calls w) \<Longrightarrow>
   insert_batch env b w
     = Done (w\<lparr>encode_calls := Suc (encode_calls w), add_calls := Suc (add_calls w),
              store := store_add (batch_entries (map (embed env) (docs b)) b) (store w)\<rparr>)"
  by (simp add: insert_batch_def Let_def)

lemma insert_batch_fail:
  "encode_fails env (encode_calls w) \<or> add_fails env (add_calls w) \<Longrightarrow>
   insert_batch env b w
     = Raised (if encode_fails env (encode_calls w) then EncodeError else AddError)
         (w\<lparr>encode_calls := Suc (encode_calls w),
            add_calls := add_calls w + (if encode_fails env (encode_calls w) then 0 else 1)\<rparr>)"
  by (auto simp: insert_batch_def Let_def)

lemma run_batches_ok:
  "(\<forall>k<length bs. \<not> encode_fails env (encode_calls w + k) \<and> \<not> add_fails env (add_calls w + k)) \<Longrightarrow>
   run_batches env bs w
     = Done (w\<lparr>encode_calls := encode_calls w + length bs, add_calls := add_calls w + length bs,
              store := add_batches env bs (store w)\<rparr>)"
proof (induction bs arbitrary: w)
  case Nil
  show ?case by (simp add: add_batches_def)
next
  case (Cons b bs)
  let ?w' = "w\<lparr>encode_calls := Suc (encode_calls w), add_calls := Suc (add_calls w),
              store := store_add (batch_entries (map (embed env) (docs b)) b) (store w)\<rparr>"
  have ok0: "\<not> encode_fails env (encode_calls w)" "\<not> add_fails env (add_calls w)"
    using Cons.prems by force+
  have ins: "insert_batch env b w = Done ?w'"
    using ok0 by (rule insert_batch_ok)
  have "\<forall>k<length bs. \<not> encode_fails env (encode_calls ?w' + k) \<and> \<not> add_fails env (add_calls ?w' + k)"
  proof (intro allI impI)
    fix k assume "k < length bs"
    then have "Suc k < length (b # bs)" by simp
    with Cons.prems have "\<not> encode_fails env (encode_calls w + Suc k) \<and> \<not> add_fails env (add_calls w + Suc k)"
      by blast
    then show "\<not> encode_fails env (encode_calls ?w' + k) \<and> \<not> add_fails env (add_calls ?w' + k)"
      by simp
  qed
  from Cons.IH[OF this] show ?case
    by (simp add: ins add_batches_def)
qed

lemma run_batches_fail_at:
  "k < length bs \<Longrightarrow>
   (\<forall>j<k. \<not> encode_fails env (encode_calls w + j) \<and> \<not> add_fails env (add_calls w + j)) \<Longrightarrow>
   encode_fails env (encode_calls w + k) \<or> add_fails env (add_calls w + k) \<Longrightarrow>
   run_batches env bs w
     = Raised (if encode_fails env (encode_calls w + k) then EncodeError else AddError)
         (w\<lparr>encode_calls := encode_calls w + k + 1,
            add_calls := add_calls w + k + (if encode_fails env (encode_calls w + k) then 0 else 1),
            store := add_batches env (take k bs) (store w)\<rparr>)"
proof (induction bs arbitrary: w k)
  case Nil
  then show ?case by simp
next
  case (Cons b bs)
  show ?case
  proof (cases k)
    case 0
    with Cons.prems(3) have "encode_fails env (encode_calls w) \<or> add_fails env (add_calls w)"
      by simp
    from insert_batch_fail[OF this, of b] show ?thesis
      using 0 by (simp add: add_batches_def)
  next
    case (Suc k')
    let ?w' = "w\<lparr>encode_calls := Suc (encode_calls w), add_calls := Suc (add_calls w),
              store := store_add (batch_entries (map (embed env) (docs b)) b) (store w)\<rparr>"
    have ok0: "\<not> encode_fails env (encode_calls w)" "\<not> add_fails env (add_calls w)"
      using Cons.prems(2) Suc by force+
    have ins: "insert_batch env b w = Done ?w'"
      using ok0 by (rule insert_batch_ok)
    have k': "k' < length bs" using Cons.prems(1) Suc by simp
    have pre: "\<forall>j<k'. \<not> encode_fails env (encode_calls ?w' + j) \<and> \<not> add_fails env (add_calls ?w' + j)"
    proof (intro allI impI)
      fix j assume "j < k'"
      then have "Suc j < k" using Suc by simp
      with Cons.prems(2) have "\<not> encode_fails env (encode_calls w + Suc j) \<and> \<not> add_fails env (add_calls w + Suc j)"
        by blast
      then show "\<not> encode_fails env (encode_calls ?w' + j) \<and> \<not> add_fails env (add_calls ?w' + j)"
        by simp
    qed
    have fl: "encode_fails env (encode_calls ?w' + k') \<or> add_fails env (add_calls ?w' + k')"
      using Cons.prems(3) Suc by simp
    from Cons.IH[OF k' pre fl] show ?thesis
      using Suc by (simp add: ins add_batches_def)
  qed
qed

lemma run_batches_fail_raises:
  "\<exists>k<length bs. encode_fails env (encode_calls w + k) \<or> add_fails env (add_calls w + k) \<Longrightarrow>
   \<exists>e w'. run_batches env bs w = Raised e w' \<and> (e = EncodeError \<or> e = AddError)"
proof -
  assume ex: "\<exists>k<length bs. encode_fails env (encode_calls w + k) \<or> add_fails env (add_calls w + k)"
  define P where "P k \<longleftrightarrow> k < length bs \<and> (encode_fails env (encode_calls w + k) \<or> add_fails env (add_calls w + k))" for k
  define k where "k = (LEAST k. P k)"
  from ex have "\<exists>k. P k" by (auto simp: P_def)
  then have Pk: "P k" unfolding k_def by (metis LeastI)
  have least: "\<And>j. j < k \<Longrightarrow> \<not> P j" unfolding k_def by (rule not_less_Least)
  have kl: "k < length bs" using Pk by (simp add: P_def)
  have pre: "\<forall>j<k. \<not> encode_fails env (encode_calls w + j) \<and> \<not> add_fails env (add_calls w + j)"
    using least kl by (auto simp: P_def)
  have fl: "encode_fails env (encode_calls w + k) \<or> add_fails env (add_calls w + k)"
    using Pk by (simp add: P_def)
  from run_batches_fail_at[OF kl pre fl] show ?thesis by auto
qed

lemma store_add_superset: "set es \<subseteq> set (store_add new es)"
proof (induction new arbitrary: es)
  case Nil
  show ?case by simp
next
  case (Cons e new)
  have "set es \<subseteq> set (if eid e \<in> eid ` set es then es else es @ [e])" by auto
  also have "\<dots> \<subseteq> set (store_add new (if eid e \<in> eid ` set es then es else es @ [e]))"
    by (rule Cons.IH)
  finally show ?case by simp
qed

lemma insert_batch_superset: "set (store w) \<subseteq> set (store (final (insert_batch env b w)))"
  using store_add_superset by (auto simp: insert_batch_def Let_def)

lemma run_batches_superset: "set (store w) \<subseteq> set (store (final (run_batches env bs w)))"
proof (induction bs arbitrary: w)
  case Nil
  show ?case by simp
next
  case (Cons b bs)
  show ?case
  proof (cases "insert_batch env b w")
    case (Done w')
    have "set (store w) \<subseteq> set (store w')"
      using insert_batch_superset[of w env b] Done by simp
    also have "\<dots> \<subseteq> set (store (final (run_batches env bs w')))" by (rule Cons.IH)
    finally show ?thesis by (simp add: Done)
  next
    case (Raised e w')
    then show ?thesis using insert_batch_superset[of w env b] by simp
  qed
qed

lemma after_delete_keeps:
  "e \<in> set (store w) \<Longrightarrow> \<not> export_tagged e \<Longrightarrow> e \<in> set (store (after_delete env w))"
  by (simp add: after_delete_def store_delete_def export_tagged_def)

lemma live_not_export: "live_tagged e \<Longrightarrow> \<not> export_tagged e"
  by (simp add: live_tagged_def export_tagged_def lit_def)

lemma build_index_keeps:
  assumes "e \<in> set (store w)" "\<not> export_tagged e"
  shows "e \<in> set (store (final (build_index env msgs w)))"
proof -
  have "e \<in> set (store (after_delete env w))"
    using assms by (rule after_delete_keeps)
  then show ?thesis
    using run_batches_superset[of "after_delete env w" env "export_batches msgs"]
    by (auto simp: build_index_batches)
qed


lemma store_add_subset: "set (store_add new es) \<subseteq> set es \<union> set new"
proof (induction new arbitrary: es)
  case Nil
  show ?case by simp
next
  case (Cons e new)
  have "set (store_add new (if eid e \<in> eid ` set es then es else es @ [e]))
      \<subseteq> set (if eid e \<in> eid ` set es then es else es @ [e]) \<union> set new"
    by (rule Cons.IH)
  then show ?case by auto
qed

lemma batch_entries_metadata:
  "e \<in> set (batch_entries embs b) \<Longrightarrow> metadata e \<in> set (metadatas b)"
  by (auto simp: batch_entries_def dest!: set_zip_rightD)

lemma insert_batch_live:
  assumes "live_batch b" and "e \<in> set (store (final (insert_batch env b w)))"
  shows "e \<in> set (store w) \<or> live_tagged e"
proof (cases "e \<in> set (store w)")
  case True
  then show ?thesis by simp
next
  case False
  with assms(2) have "e \<in> set (store_add (batch_entries (map (embed env) (docs b)) b) (store w))"
    by (auto simp: insert_batch_def Let_def split: if_splits)
  with False have "e \<in> set (batch_entries (map (embed env) (docs b)) b)"
    using store_add_subset by fastforce
  then have "metadata e \<in> set (metadatas b)" by (rule batch_entries_metadata)
  with assms(1) show ?thesis by (simp add: live_batch_def live_tagged_def)
qed

lemma live_metadata_source:
  "map_of (live_metadata t m g) (lit ''source'') = Some (JStr (lit ''live_cli''))"
  by (simp add: live_metadata_def)

lemma ingest_loop_live:
  assumes "live_batch b"
    and "ingest_loop env recs b nl w = r" and "final r = (b', nl', w')"
  shows "live_batch b' \<and> (\<forall>e\<in>set (store w'). e \<in> set (store w) \<or> live_tagged e)"
  using assms
proof (induction recs arbitrary: b nl w)
  case Nil
  then show ?case by auto
next
  case (Cons rc recs)
  obtain line_no rcd where rc: "rc = (line_no, rcd)" by (cases rc)
  show ?case
  proof (cases "read_fields rcd")
    case (Inl e)
    with Cons.prems show ?thesis by (auto simp: rc Let_def)
  next
    case (Inr f)
    obtain u a t m g where f: "f = (u, a, t, m, g)" by (cases f)
    let ?b1 = "\<lparr>docs = docs b @ [live_text (repr env) u a t m g],
              metadatas = metadatas b @ [live_metadata t m g],
              ids = ids b @ [lit ''live-cli-'' @ str_int line_no]\<rparr>"
    have lb1: "live_batch ?b1"
      using Cons.prems(1) by (auto simp: live_batch_def live_metadata_source)
    have le: "live_batch empty_batch" by (simp add: live_batch_def empty_batch_def)
    consider (skip) "u = [] \<and> a = []"
      | (flush) "\<not> (u = [] \<and> a = [])" "length (docs ?b1) \<ge> 64"
      | (keep) "\<not> (u = [] \<and> a = [])" "\<not> length (docs ?b1) \<ge> 64"
      by blast
    then show ?thesis
    proof cases
      case skip
      with Cons.prems have "ingest_loop env recs b (max nl line_no) w = r"
        by (simp add: rc Inr f Let_def)
      from Cons.IH[OF Cons.prems(1) this Cons.prems(3)] show ?thesis .
    next
      case keep
      with Cons.prems have "ingest_loop env recs ?b1 (max nl line_no) w = r"
        by (simp add: rc Inr f Let_def)
      from Cons.IH[OF lb1 this Cons.prems(3)] show ?thesis .
    next
      case flush
      show ?thesis
      proof (cases "insert_batch env ?b1 w")
        case (Done w1)
        with flush Cons.prems have "ingest_loop env recs empty_batch (max nl line_no) w1 = r"
          by (auto simp: rc Inr f Let_def)
        from Cons.IH[OF le this Cons.prems(3)]
        have b': "live_batch b'"
          and st: "\<forall>e\<in>set (store w'). e \<in> set (store w1) \<or> live_tagged e" by simp_all
        have "\<forall>e\<in>set (store w1). e \<in> set (store w) \<or> live_tagged e"
          using insert_batch_live[OF lb1, of _ env w] Done by simp
        with b' st show ?thesis by blast
      next
        case (Raised e w1)
        with flush Cons.prems have r: "b' = ?b1" "w' = w1"
          by (auto simp: rc Inr f Let_def)
        have "\<forall>e\<in>set (store w1). e \<in> set (store w) \<or> live_tagged e"
          using insert_batch_live[OF lb1, of _ env w] Raised by simp
        with lb1 r show ?thesis by simp
      qed
    qed
  qed
qed

lemma main_adds_live:
  assumes "e \<in> set (store (final (main env logf w)))"
  shows "e \<in> set (store w) \<or> live_tagged e"
proof -
  let ?lp = "ingest_loop env (iter_new_records (loads env) (load_state w) logf)
               empty_batch (load_state w) w"
  obtain b nl w1 where fin: "final ?lp = (b, nl, w1)" by (cases "final ?lp")
  have le: "live_batch empty_batch" by (simp add: live_batch_def empty_batch_def)
  from ingest_loop_live[OF le refl fin]
  have b: "live_batch b" and st: "\<forall>e\<in>set (store w1). e \<in> set (store w) \<or> live_tagged e"
    by simp_all
  show ?thesis
  proof (cases ?lp)
    case (Raised x s)
    with fin assms have "e \<in> set (store w1)"
      by (simp add: main_def Let_def)
    with st show ?thesis by blast
  next
    case (Done s)
    with fin have s: "s = (b, nl, w1)" by simp
    show ?thesis
    proof (cases "docs b \<noteq> []")
      case True
      have "store (final (main env logf w)) = store (final (insert_batch env b w1))"
        using Done s True
        by (cases "insert_batch env b w1") (simp_all add: main_def Let_def save_state_def)
      with assms have "e \<in> set (store w1) \<or> live_tagged e"
        using insert_batch_live[OF b] by simp
      with st show ?thesis by blast
    next
      case False
      have "store (final (main env logf w)) = store w1"
        using Done s False by (simp add: main_def Let_def save_state_def)
      with assms st show ?thesis by simp
    qed
  qed
qed

text \<open>
  C1 (partition isolation of the rebuild). Whatever the rebuild does, and whether it
  completes or raises, an entry of the collection that is gone afterwards was tagged
  \<open>source = chatgpt_export\<close>, and every entry tagged \<open>source = live_cli\<close> is still there.
  That tag is the one the incremental ingestion gives to every entry it adds.
\<close>

theorem rebuild_keeps_live:
  "(\<forall>e\<in>set (store w). e \<notin> set (store (final (build_index env msgs w))) \<longrightarrow> export_tagged e)
   \<and> (\<forall>e\<in>set (store w). live_tagged e \<longrightarrow> e \<in> set (store (final (build_index env msgs w))))
   \<and> (\<forall>e\<in>set (store (final (main env2 logf w0))). e \<notin> set (store w0) \<longrightarrow> live_tagged e)"
  using build_index_keeps live_not_export main_adds_live by blast

theorem rebuild_keeps_live_witness:
  "live_tagged \<lparr>eid = lit ''live-cli-1'', embedding = (), document = lit ''x'',
       metadata = [(lit ''source'', JStr (lit ''live_cli''))]\<rparr>
   \<and> export_tagged \<lparr>eid = lit ''chatgpt-0'', embedding = (), document = lit ''old'',
       metadata = [(lit ''source'', JStr (lit ''chatgpt_export''))]\<rparr>
   \<and> store (final (build_index
        \<lparr>embed = (\<lambda>s. ()), delete_fails = False, encode_fails = (\<lambda>n. False),
           add_fails = (\<lambda>n. False), loads = (\<lambda>s. None), repr = (\<lambda>v. [])\<rparr>
        [(JStr (lit ''t''), JStr (lit ''user''), lit ''hi'')]
        \<lparr>store = [\<lparr>eid = lit ''live-cli-1'', embedding = (), document = lit ''x'',
                     metadata = [(lit ''source'', JStr (lit ''live_cli''))]\<rparr>,
                   \<lparr>eid = lit ''chatgpt-0'', embedding = (), document = lit ''old'',
                     metadata = [(lit ''source'', JStr (lit ''chatgpt_export''))]\<rparr>],
           state_file = None, encode_calls = 0, add_calls = 0\<rparr>))
     = [\<lparr>eid = lit ''live-cli-1'', embedding = (), document = lit ''x'',
           metadata = [(lit ''source'', JStr (lit ''live_cli''))]\<rparr>,
        \<lparr>eid = lit ''chatgpt-0'', embedding = (), document = lit ''hi'',
           metadata = [(lit ''source'', JStr (lit ''chatgpt_export'')),
                       (lit ''conversation_title'', JStr (lit ''t'')),
                       (lit ''role'', JStr (lit ''user''))]\<rparr>]"
  using rebuild_keeps_live[of
        "\<lparr>store = [\<lparr>eid = lit ''live-cli-1'', embedding = (), document = lit ''x'',
                     metadata = [(lit ''source'', JStr (lit ''live_cli''))]\<rparr>,
                   \<lparr>eid = lit ''chatgpt-0'', embedding = (), document = lit ''old'',
                     metadata = [(lit ''source'', JStr (lit ''chatgpt_export''))]\<rparr>],
           state_file = None, encode_calls = 0, add_calls = 0\<rparr>"
        "\<lparr>embed = (\<lambda>s. ()), delete_fails = False, encode_fails = (\<lambda>n. False),
           add_fails = (\<lambda>n. False), loads = (\<lambda>s. None), repr = (\<lambda>v. [])\<rparr>"
        "[(JStr (lit ''t''), JStr (lit ''user''), lit ''hi'')]"]
  by (simp add: build_index_def chunk_text_def strip_def lstrip_def rstrip_def is_space_def
      lit_def insert_batch_def batch_entries_def empty_batch_def store_delete_def
      export_metadata_def str_nat.simps live_tagged_def export_tagged_def)

text \<open>
  C9 (asymmetric failure handling in the rebuild). When the deletion fails and no batch
  insert does, \<open>build_index\<close> completes and has written every batch. When the embedding
  call or the store add of some batch fails, \<open>build_index\<close> raises; it raises at the
  first such batch \<open>k\<close>, with the collection holding the batches before \<open>k\<close> and nothing
  of batch \<open>k\<close>.
\<close>

theorem rebuild_failures:
  "(delete_fails env
      \<and> (\<forall>k<length (export_batches msgs).
            \<not> encode_fails env (encode_calls w + k) \<and> \<not> add_fails env (add_calls w + k))
      \<longrightarrow> build_index env msgs w
            = Done (w\<lparr>encode_calls := encode_calls w + length (export_batches msgs),
                     add_calls := add_calls w + length (export_batches msgs),
                     store := add_batches env (export_batches msgs) (store w)\<rparr>))
   \<and> ((\<exists>k<length (export_batches msgs).
            encode_fails env (encode_calls w + k) \<or> add_fails env (add_calls w + k))
      \<longrightarrow> (\<exists>e w'. build_index env msgs w = Raised e w' \<and> (e = EncodeError \<or> e = AddError)))
   \<and> (k < length (export_batches msgs)
      \<and> (\<forall>j<k. \<not> encode_fails env (encode_calls w + j) \<and> \<not> add_fails env (add_calls w + j))
      \<and> (encode_fails env (encode_calls w + k) \<or> add_fails env (add_calls w + k))
      \<longrightarrow> build_index env msgs w
            = Raised (if encode_fails env (encode_calls w + k) then EncodeError else AddError)
                ((after_delete env w)
                   \<lparr>encode_calls := encode_calls w + k + 1,
                    add_calls := add_calls w + k
                       + (if encode_fails env (encode_calls w + k) then 0 else 1),
                    store := add_batches env (take k (export_batches msgs))
                               (store (after_delete env w))\<rparr>))"
proof (intro conjI impI)
  assume a: "delete_fails env
      \<and> (\<forall>k<length (export_batches msgs).
            \<not> encode_fails env (encode_calls w + k) \<and> \<not> add_fails env (add_calls w + k))"
  then have d: "after_delete env w = w" by (simp add: after_delete_def)
  from a have "\<forall>k<length (export_batches msgs).
      \<not> encode_fails env (encode_calls w + k) \<and> \<not> add_fails env (add_calls w + k)"
    by simp
  from run_batches_ok[OF this]
  show "build_index env msgs w
            = Done (w\<lparr>encode_calls := encode_calls w + length (export_batches msgs),
                     add_calls := add_calls w + length (export_batches msgs),
                     store := add_batches env (export_batches msgs) (store w)\<rparr>)"
    by (simp add: build_index_batches d)
next
  assume "\<exists>k<length (export_batches msgs).
            encode_fails env (encode_calls w + k) \<or> add_fails env (add_calls w + k)"
  then have "\<exists>k<length (export_batches msgs).
      encode_fails env (encode_calls (after_delete env w) + k)
      \<or> add_fails env (add_calls (after_delete env w) + k)"
    by (simp add: after_delete_def)
  from run_batches_fail_raises[OF this]
  show "\<exists>e w'. build_index env msgs w = Raised e w' \<and> (e = EncodeError \<or> e = AddError)"
    by (simp add: build_index_batches)
next
  assume a: "k < length (export_batches msgs)
      \<and> (\<forall>j<k. \<not> encode_fails env (encode_calls w + j) \<and> \<not> add_fails env (add_calls w + j))
      \<and> (encode_fails env (encode_calls w + k) \<or> add_fails env (add_calls w + k))"
  have c: "encode_calls (after_delete env w) = encode_calls w"
    "add_calls (after_delete env w) = add_calls w"
    by (simp_all add: after_delete_def)
  from a have k: "k < length (export_batches msgs)"
    and pre: "\<forall>j<k. \<not> encode_fails env (encode_calls (after_delete env w) + j)
                  \<and> \<not> add_fails env (add_calls (after_delete env w) + j)"
    and fl: "encode_fails env (encode_calls (after_delete env w) + k)
             \<or> add_fails env (add_calls (after_delete env w) + k)"
    by (simp_all add: c)
  from run_batches_fail_at[OF k pre fl]
  show "build_index env msgs w
            = Raised (if encode_fails env (encode_calls w + k) then EncodeError else AddError)
                ((after_delete env w)
                   \<lparr>encode_calls := encode_calls w + k + 1,
                    add_calls := add_calls w + k
                       + (if encode_fails env (encode_calls w + k) then 0 else 1),
                    store := add_batches env (take k (export_batches msgs))
                               (store (after_delete env w))\<rparr>)"
    by (simp add: build_index_batches c)
qed

lemma export_batches_example:
  "export_batches [(JStr (lit ''t''), JStr (lit ''user''), lit ''hi'')]
     = [\<lparr>docs = [lit ''hi''],
          metadatas = [export_metadata (JStr (lit ''t'')) (JStr (lit ''user''))],
          ids = [lit ''chatgpt-0'']\<rparr>]"
  by (simp add: export_batches_def chunk_text_def strip_def lstrip_def rstrip_def is_space_def
      lit_def empty_batch_def str_nat.simps)

theorem rebuild_failures_witness:
  "build_index
      \<lparr>embed = (\<lambda>s. ()), delete_fails = True, encode_fails = (\<lambda>n. False),
         add_fails = (\<lambda>n. False), loads = (\<lambda>s. None), repr = (\<lambda>v. [])\<rparr>
      [(JStr (lit ''t''), JStr (lit ''user''), lit ''hi'')]
      \<lparr>store = [], state_file = None, encode_calls = 0, add_calls = 0\<rparr>
    = Done \<lparr>store = [\<lparr>eid = lit ''chatgpt-0'', embedding = (), document = lit ''hi'',
                       metadata = export_metadata (JStr (lit ''t'')) (JStr (lit ''user''))\<rparr>],
            state_file = None, encode_calls = 1, add_calls = 1\<rparr>
   \<and> build_index
      \<lparr>embed = (\<lambda>s. ()), delete_fails = False, encode_fails = (\<lambda>n. False),
         add_fails = (\<lambda>n. True), loads = (\<lambda>s. None), repr = (\<lambda>v. [])\<rparr>
      [(JStr (lit ''t''), JStr (lit ''user''), lit ''hi'')]
      \<lparr>store = [], state_file = None, encode_calls = 0, add_calls = 0\<rparr>
    = Raised AddError \<lparr>store = [], state_file = None, encode_calls = 1, add_calls = 1\<rparr>"
  using rebuild_failures[of
      "\<lparr>embed = (\<lambda>s. ()), delete_fails = True, encode_fails = (\<lambda>n. False),
         add_fails = (\<lambda>n. False), loads = (\<lambda>s. None), repr = (\<lambda>v. [])\<rparr>"
      "[(JStr (lit ''t''), JStr (lit ''user''), lit ''hi'')]"
      "\<lparr>store = [], state_file = None, encode_calls = 0, add_calls = 0\<rparr>" 0]
    rebuild_failures[of
      "\<lparr>embed = (\<lambda>s. ()), delete_fails = False, encode_fails = (\<lambda>n. False),
         add_fails = (\<lambda>n. True), loads = (\<lambda>s. None), repr = (\<lambda>v. [])\<rparr>"
      "[(JStr (lit ''t''), JStr (lit ''user''), lit ''hi'')]"
      "\<lparr>store = [], state_file = None, encode_calls = 0, add_calls = 0\<rparr>" 0]
  by (simp add: export_batches_example add_batches_def batch_entries_def after_delete_def
      store_delete_def)

section \<open>Properties of the incremental ingestion\<close>

lemma iter_lines_mem:
  "(k, r) \<in> set (iter_lines ld c i lines) \<longleftrightarrow>
     c < k \<and> i \<le> k \<and> k < i + int (length lines)
     \<and> strip (lines ! nat (k - i)) \<noteq> [] \<and> ld (strip (lines ! nat (k - i))) = Some r"
proof (induction lines arbitrary: i)
  case Nil
  show ?case by auto
next
  case (Cons line rest)
  have shift: "i + 1 \<le> k \<Longrightarrow> (line # rest) ! nat (k - i) = rest ! nat (k - (i + 1))"
  proof -
    assume "i + 1 \<le> k"
    then have "nat (k - i) = Suc (nat (k - (i + 1)))" by simp
    then show ?thesis by simp
  qed
  have tail: "(k, r) \<in> set (iter_lines ld c (i + 1) rest) \<longleftrightarrow>
     c < k \<and> i + 1 \<le> k \<and> k < i + int (length (line # rest))
     \<and> strip ((line # rest) ! nat (k - i)) \<noteq> [] \<and> ld (strip ((line # rest) ! nat (k - i))) = Some r"
    using Cons.IH[of "i + 1"] shift by auto
  show ?case
  proof (cases "k = i")
    case True
    have notin: "(i, r) \<notin> set (iter_lines ld c (i + 1) rest)"
      using Cons.IH[of "i + 1"] True by simp
    show ?thesis
      using True notin by (auto simp: Let_def split: option.splits)
  next
    case False
    then have "(k, r) \<in> set (iter_lines ld c i (line # rest))
        \<longleftrightarrow> (k, r) \<in> set (iter_lines ld c (i + 1) rest)"
      by (auto simp: Let_def split: option.splits)
    with tail False show ?thesis by auto
  qed
qed

lemma iter_new_records_mem:
  "(k, r) \<in> set (iter_new_records ld c (Some lines)) \<longleftrightarrow>
     c < k \<and> 1 \<le> k \<and> k \<le> int (length lines)
     \<and> strip (lines ! nat (k - 1)) \<noteq> [] \<and> ld (strip (lines ! nat (k - 1))) = Some r"
  using iter_lines_mem[of k r ld c 1 lines] by (auto simp: iter_new_records_def)

lemma iter_new_records_after: "(k, r) \<in> set (iter_new_records ld c logf) \<Longrightarrow> c < k"
  by (cases logf) (auto simp: iter_new_records_mem, simp add: iter_new_records_def)

lemma iter_new_records_noise:
  assumes "\<forall>k<length lines. c < int k + 1 \<longrightarrow> noise ld (lines ! k)"
  shows "iter_new_records ld c (Some lines) = []"
proof (rule ccontr)
  assume "iter_new_records ld c (Some lines) \<noteq> []"
  then obtain k r where m: "(k, r) \<in> set (iter_new_records ld c (Some lines))"
    by (cases "iter_new_records ld c (Some lines)") auto
  then have k: "c < k" "1 \<le> k" "k \<le> int (length lines)"
    and p: "strip (lines ! nat (k - 1)) \<noteq> []" "ld (strip (lines ! nat (k - 1))) = Some r"
    by (simp_all add: iter_new_records_mem)
  from k have "nat (k - 1) < length lines" "c < int (nat (k - 1)) + 1" by auto
  with assms have "noise ld (lines ! nat (k - 1))" by blast
  with p show False by (simp add: noise_def)
qed

lemma iter_new_records_later:
  assumes "c \<le> c'" and "\<forall>kr\<in>set (iter_new_records ld c logf). fst kr \<le> c'"
  shows "iter_new_records ld c' logf = []"
proof (cases logf)
  case None
  then show ?thesis by (simp add: iter_new_records_def)
next
  case (Some lines)
  show ?thesis
  proof (rule ccontr)
    assume "iter_new_records ld c' logf \<noteq> []"
    then obtain k r where m: "(k, r) \<in> set (iter_new_records ld c' (Some lines))"
      unfolding Some by (cases "iter_new_records ld c' (Some lines)") auto
    then have "c' < k" by (rule iter_new_records_after)
    moreover from m assms(1) have "(k, r) \<in> set (iter_new_records ld c (Some lines))"
      by (auto simp: iter_new_records_mem)
    ultimately show False using assms(2) Some by fastforce
  qed
qed

lemma insert_batch_state_file: "state_file (final (insert_batch env b w)) = state_file w"
  by (simp add: insert_batch_def Let_def)

lemma ingest_loop_done:
  "ingest_loop env recs b nl w = Done (b', nl', w') \<Longrightarrow>
   nl' = Max (insert nl (fst ` set recs)) \<and> state_file w' = state_file w"
proof (induction recs arbitrary: b nl w)
  case Nil
  then show ?case by simp
next
  case (Cons rc recs)
  obtain line_no r where rc: "rc = (line_no, r)" by (cases rc)
  have mx: "Max (insert (max nl line_no) (fst ` set recs)) = Max (insert nl (fst ` set (rc # recs)))"
  proof -
    have "insert nl (fst ` set (rc # recs)) = insert nl (insert line_no (fst ` set recs))"
      by (simp add: rc)
    then have "Max (insert nl (fst ` set (rc # recs))) = max nl (Max (insert line_no (fst ` set recs)))"
      by simp
    also have "\<dots> = max nl (if fst ` set recs = {} then line_no else max line_no (Max (fst ` set recs)))"
      by simp
    also have "\<dots> = Max (insert (max nl line_no) (fst ` set recs))"
      by (auto simp: max.assoc)
    finally show ?thesis by simp
  qed
  from Cons.prems obtain u a t m g where rf: "read_fields r = Inr (u, a, t, m, g)"
    by (cases "read_fields r") (auto simp: rc Let_def)
  let ?b1 = "\<lparr>docs = docs b @ [live_text (repr env) u a t m g],
              metadatas = metadatas b @ [live_metadata t m g],
              ids = ids b @ [lit ''live-cli-'' @ str_int line_no]\<rparr>"
  consider (skip) "u = [] \<and> a = []"
    | (flush) "\<not> (u = [] \<and> a = [])" "length (docs ?b1) \<ge> 64"
    | (keep) "\<not> (u = [] \<and> a = [])" "\<not> length (docs ?b1) \<ge> 64"
    by blast
  then show ?case
  proof cases
    case skip
    with Cons.prems have "ingest_loop env recs b (max nl line_no) w = Done (b', nl', w')"
      by (simp add: rc rf Let_def)
    from Cons.IH[OF this] show ?thesis by (simp add: mx)
  next
    case flush
    with Cons.prems obtain w1 where ins: "insert_batch env ?b1 w = Done w1"
      and rest: "ingest_loop env recs empty_batch (max nl line_no) w1 = Done (b', nl', w')"
      by (auto simp: rc rf Let_def split: outcome.splits)
    have "state_file w1 = state_file w"
      using insert_batch_state_file[of env ?b1 w] ins by simp
    with Cons.IH[OF rest] show ?thesis by (simp add: mx)
  next
    case keep
    with Cons.prems have "ingest_loop env recs ?b1 (max nl line_no) w = Done (b', nl', w')"
      by (simp add: rc rf Let_def)
    from Cons.IH[OF this] show ?thesis by (simp add: mx)
  qed
qed

lemma main_done_cursor:
  assumes "main env logf w = Done w'"
  shows "load_state w' = Max (insert (load_state w)
            (fst ` set (iter_new_records (loads env) (load_state w) logf)))"
proof -
  let ?c = "load_state w"
  let ?recs = "iter_new_records (loads env) ?c logf"
  from assms obtain b nl w1 where lp: "ingest_loop env ?recs empty_batch ?c w = Done (b, nl, w1)"
    by (cases "ingest_loop env ?recs empty_batch ?c w")
       (auto simp: main_def Let_def split: outcome.splits)
  from ingest_loop_done[OF lp] have nl: "nl = Max (insert ?c (fst ` set ?recs))"
    and sf1: "state_file w1 = state_file w" by simp_all
  have ge: "?c \<le> nl" unfolding nl by simp
  from assms lp obtain w2 where
    fl: "(if docs b \<noteq> [] then insert_batch env b w1 else Done w1) = Done w2"
    and w': "w' = (if nl > ?c then save_state nl w2 else w2)"
    by (auto simp: main_def Let_def split: outcome.splits)
  have sf2: "state_file w2 = state_file w"
    using fl insert_batch_state_file[of env b w1] sf1 by (auto split: if_splits)
  show ?thesis
  proof (cases "nl > ?c")
    case True
    then show ?thesis using w' nl by (simp add: save_state_def load_state_def)
  next
    case False
    with ge have "nl = ?c" by simp
    with False w' sf2 nl show ?thesis by (simp add: load_state_def)
  qed
qed

lemma main_nothing_new:
  "iter_new_records (loads env) (load_state w) logf = [] \<Longrightarrow> main env logf w = Done w"
  by (simp add: main_def empty_batch_def)

lemma iter_lines_skip:
  "i + int (length pre) - 1 \<le> c \<Longrightarrow>
   iter_lines ld c i (pre @ post) = iter_lines ld c (i + int (length pre)) post"
proof (induction pre arbitrary: i)
  case Nil
  show ?case by simp
next
  case (Cons p pre)
  from Cons.prems have "i \<le> c" "(i + 1) + int (length pre) - 1 \<le> c" by simp_all
  with Cons.IH[of "i + 1"] show ?case by (simp add: add.assoc)
qed

lemma store_add_fresh3:
  assumes "\<forall>e\<in>set es. eid e \<notin> {eid e1, eid e2, eid e3}"
    and "eid e1 \<noteq> eid e2" "eid e1 \<noteq> eid e3" "eid e2 \<noteq> eid e3"
  shows "store_add [e1, e2, e3] es = es @ [e1, e2, e3]"
  using assms by (auto simp: image_iff)

lemma live_ids:
  "lit ''live-cli-'' @ str_int 6 = lit ''live-cli-6''"
  "lit ''live-cli-'' @ str_int 7 = lit ''live-cli-7''"
  "lit ''live-cli-'' @ str_int 8 = lit ''live-cli-8''"
  by (simp_all add: lit_def str_int_def str_nat.simps)

lemma strip_turn_line: "strip (turn_line @ [10]) = turn_line" "strip turn_line = turn_line"
  by (simp_all add: turn_line_def lit_def strip_def lstrip_def rstrip_def is_space_def)

lemma turn_line_nonempty: "turn_line \<noteq> []"
  by (simp add: turn_line_def lit_def)

lemma read_fields_turn:
  "read_fields (JObj [(lit ''user_prompt'', JStr (lit ''hi''))])
     = Inr (lit ''hi'', [], JStr [], JStr [], False)"
  by (simp add: read_fields_def dict_get_def lit_def strip_def lstrip_def rstrip_def is_space_def)

lemma toy_loads_turn:
  "toy_loads turn_line = Some (JObj [(lit ''user_prompt'', JStr (lit ''hi''))])"
  by (simp add: toy_loads_def)

lemma lit_nonempty: "lit ''hi'' \<noteq> []" "lit ''not json'' \<noteq> []"
  by (simp_all add: lit_def)

lemma strip_not_json: "strip (lit ''not json'') = lit ''not json''"
  by (simp add: lit_def strip_def lstrip_def rstrip_def is_space_def)

lemma not_json_noise: "toy_loads (lit ''not json'') = None"
  by (simp add: toy_loads_def turn_line_def lit_def)

lemma first_run:
  "main toy_env (Some [turn_line @ [10]])
      \<lparr>store = [], state_file = None, encode_calls = 0, add_calls = 0\<rparr>
    = Done \<lparr>store = [live_entry toy_env 1 (lit ''hi'') [] (JStr []) (JStr []) False],
            state_file = Some 1, encode_calls = 1, add_calls = 1\<rparr>"
  by (simp add: main_def load_state_def save_state_def iter_new_records_def strip_turn_line
      turn_line_nonempty toy_env_def toy_loads_turn read_fields_turn empty_batch_def
      insert_batch_def batch_entries_def live_entry_def lit_nonempty)

lemma noise_then_turn:
  "main toy_env (Some [lit ''not json'', turn_line @ [10]])
      \<lparr>store = [], state_file = None, encode_calls = 0, add_calls = 0\<rparr>
    = Done \<lparr>store = [live_entry toy_env 2 (lit ''hi'') [] (JStr []) (JStr []) False],
            state_file = Some 2, encode_calls = 1, add_calls = 1\<rparr>"
  by (simp add: main_def load_state_def save_state_def iter_new_records_def strip_turn_line
      strip_not_json not_json_noise toy_loads_turn
      turn_line_nonempty toy_env_def read_fields_turn empty_batch_def
      insert_batch_def batch_entries_def live_entry_def lit_nonempty)

text \<open>
  C5 (incremental resume exactness). With the cursor at 5, a log of five earlier lines
  and three new lines that are not blank, parse, and yield a non-empty prompt or reply,
  no failing call and none of the three ids in the collection yet, one run of \<open>main\<close>
  completes, makes one batch insert, appends exactly the three entries made of lines 6,
  7 and 8, whose ids are \<open>live-cli-6\<close>, \<open>live-cli-7\<close> and \<open>live-cli-8\<close>, and saves the
  cursor 8.
\<close>

theorem ingest_three_new_lines:
  assumes "state_file w = Some 5" and "length pre = 5"
    and "strip l6 \<noteq> []" and "loads env (strip l6) = Some r6"
    and "read_fields r6 = Inr (u6, a6, t6, m6, g6)" and "u6 \<noteq> [] \<or> a6 \<noteq> []"
    and "strip l7 \<noteq> []" and "loads env (strip l7) = Some r7"
    and "read_fields r7 = Inr (u7, a7, t7, m7, g7)" and "u7 \<noteq> [] \<or> a7 \<noteq> []"
    and "strip l8 \<noteq> []" and "loads env (strip l8) = Some r8"
    and "read_fields r8 = Inr (u8, a8, t8, m8, g8)" and "u8 \<noteq> [] \<or> a8 \<noteq> []"
    and "\<not> encode_fails env (encode_calls w)" and "\<not> add_fails env (add_calls w)"
    and "\<forall>e\<in>set (store w).
           eid e \<notin> {lit ''live-cli-6'', lit ''live-cli-7'', lit ''live-cli-8''}"
  shows "main env (Some (pre @ [l6, l7, l8])) w
           = Done (w\<lparr>encode_calls := Suc (encode_calls w), add_calls := Suc (add_calls w),
                    store := store w @ [live_entry env 6 u6 a6 t6 m6 g6,
                                        live_entry env 7 u7 a7 t7 m7 g7,
                                        live_entry env 8 u8 a8 t8 m8 g8],
                    state_file := Some 8\<rparr>)
         \<and> map eid [live_entry env 6 u6 a6 t6 m6 g6, live_entry env 7 u7 a7 t7 m7 g7,
                    live_entry env 8 u8 a8 t8 m8 g8 :: 'a entry]
           = [lit ''live-cli-6'', lit ''live-cli-7'', lit ''live-cli-8'']"
proof -
  let ?e6 = "live_entry env 6 u6 a6 t6 m6 g6"
  let ?e7 = "live_entry env 7 u7 a7 t7 m7 g7"
  let ?e8 = "live_entry env 8 u8 a8 t8 m8 g8"
  let ?b = "\<lparr>docs = [document ?e6, document ?e7, document ?e8],
             metadatas = [metadata ?e6, metadata ?e7, metadata ?e8],
             ids = [eid ?e6, eid ?e7, eid ?e8]\<rparr>"
  have c: "load_state w = 5" using assms(1) by (simp add: load_state_def)
  have "iter_lines (loads env) 5 1 (pre @ [l6, l7, l8])
      = iter_lines (loads env) 5 (1 + int (length pre)) [l6, l7, l8]"
    by (rule iter_lines_skip) (simp add: assms(2))
  then have recs: "iter_new_records (loads env) 5 (Some (pre @ [l6, l7, l8]))
      = [(6, r6), (7, r7), (8, r8)]"
    using assms by (simp add: iter_new_records_def)
  have lp: "ingest_loop env [(6, r6), (7, r7), (8, r8)] empty_batch 5 w = Done (?b, 8, w)"
    using assms by (auto simp: empty_batch_def live_entry_def)
  have ins: "insert_batch env ?b w
      = Done (w\<lparr>encode_calls := Suc (encode_calls w), add_calls := Suc (add_calls w),
               store := store_add (batch_entries (map (embed env) (docs ?b)) ?b) (store w)\<rparr>)"
    using assms(15,16) by (rule insert_batch_ok)
  have be: "batch_entries (map (embed env) (docs ?b)) ?b = [?e6, ?e7, ?e8]"
    by (simp add: batch_entries_def live_entry_def)
  have idl: "eid ?e6 = lit ''live-cli-6''" "eid ?e7 = lit ''live-cli-7''"
    "eid ?e8 = lit ''live-cli-8''"
    by (simp_all add: live_entry_def live_ids)
  have sa: "store_add [?e6, ?e7, ?e8] (store w) = store w @ [?e6, ?e7, ?e8]"
    by (rule store_add_fresh3) (use assms(17) in \<open>simp_all add: idl lit_def\<close>)
  have ins': "insert_batch env ?b w
      = Done (w\<lparr>encode_calls := Suc (encode_calls w), add_calls := Suc (add_calls w),
               store := store w @ [?e6, ?e7, ?e8]\<rparr>)"
    unfolding ins be sa ..
  have "main env (Some (pre @ [l6, l7, l8])) w
           = Done (w\<lparr>encode_calls := Suc (encode_calls w), add_calls := Suc (add_calls w),
                    store := store w @ [?e6, ?e7, ?e8], state_file := Some 8\<rparr>)"
    unfolding main_def c recs Let_def lp
    by (simp add: ins' save_state_def)
  then show ?thesis by (simp add: idl)
qed

theorem ingest_three_new_lines_witness:
  "main toy_env
      (Some (replicate 5 (lit ''old'') @ [turn_line @ [10], turn_line @ [10], turn_line @ [10]]))
      \<lparr>store = [], state_file = Some 5, encode_calls = 0, add_calls = 0\<rparr>
    = Done \<lparr>store = [live_entry toy_env 6 (lit ''hi'') [] (JStr []) (JStr []) False,
                     live_entry toy_env 7 (lit ''hi'') [] (JStr []) (JStr []) False,
                     live_entry toy_env 8 (lit ''hi'') [] (JStr []) (JStr []) False],
            state_file = Some 8, encode_calls = 1, add_calls = 1\<rparr>
   \<and> map eid [live_entry toy_env 6 (lit ''hi'') [] (JStr []) (JStr []) False,
               live_entry toy_env 7 (lit ''hi'') [] (JStr []) (JStr []) False,
               live_entry toy_env 8 (lit ''hi'') [] (JStr []) (JStr []) False]
     = [lit ''live-cli-6'', lit ''live-cli-7'', lit ''live-cli-8'']"
  using ingest_three_new_lines[where env = toy_env
      and w = "\<lparr>store = [], state_file = Some 5, encode_calls = 0, add_calls = 0\<rparr>"
      and pre = "replicate 5 (lit ''old'')"
      and ?l6.0 = "turn_line @ [10]" and ?l7.0 = "turn_line @ [10]" and ?l8.0 = "turn_line @ [10]"
      and ?r6.0 = "JObj [(lit ''user_prompt'', JStr (lit ''hi''))]"
      and ?r7.0 = "JObj [(lit ''user_prompt'', JStr (lit ''hi''))]"
      and ?r8.0 = "JObj [(lit ''user_prompt'', JStr (lit ''hi''))]"
      and ?u6.0 = "lit ''hi''" and ?a6.0 = "[]" and ?t6.0 = "JStr []" and ?m6.0 = "JStr []" and ?g6.0 = False
      and ?u7.0 = "lit ''hi''" and ?a7.0 = "[]" and ?t7.0 = "JStr []" and ?m7.0 = "JStr []" and ?g7.0 = False
      and ?u8.0 = "lit ''hi''" and ?a8.0 = "[]" and ?t8.0 = "JStr []" and ?m8.0 = "JStr []" and ?g8.0 = False]
  by (simp add: strip_turn_line turn_line_nonempty read_fields_turn toy_env_def toy_loads_def)
     (simp add: lit_def)

text \<open>
  C6 (idempotence of incremental ingestion). After a run that completed, a second run
  over the same log completes and leaves the whole state as it is: the collection, the
  cursor file, and the counts of embedding and add calls, so nothing is embedded or
  added again; this holds whatever the embedding model and the store would do, given
  the same \<open>json.loads\<close>. No record is ever yielded for a line at or before the cursor.
\<close>

theorem ingest_idempotent:
  "(main env logf w = Done w' \<and> loads env2 = loads env \<longrightarrow> main env2 logf w' = Done w')
   \<and> (\<forall>kr\<in>set (iter_new_records ld c logf). c < fst kr)"
proof (intro conjI impI ballI)
  assume a: "main env logf w = Done w' \<and> loads env2 = loads env"
  let ?recs = "iter_new_records (loads env) (load_state w) logf"
  from a have cur: "load_state w' = Max (insert (load_state w) (fst ` set ?recs))"
    by (simp add: main_done_cursor)
  have ge: "load_state w \<le> load_state w'" unfolding cur by simp
  have all: "\<forall>kr\<in>set ?recs. fst kr \<le> load_state w'"
    unfolding cur by simp
  have "iter_new_records (loads env) (load_state w') logf = []"
    using ge all by (rule iter_new_records_later)
  then have "iter_new_records (loads env2) (load_state w') logf = []"
    using a by simp
  then show "main env2 logf w' = Done w'" by (rule main_nothing_new)
next
  fix kr assume "kr \<in> set (iter_new_records ld c logf)"
  then show "c < fst kr"
    using iter_new_records_after[of "fst kr" "snd kr" ld c logf] by simp
qed

theorem ingest_idempotent_witness:
  "main toy_env (Some [turn_line @ [10]])
      \<lparr>store = [], state_file = None, encode_calls = 0, add_calls = 0\<rparr>
    = Done \<lparr>store = [live_entry toy_env 1 (lit ''hi'') [] (JStr []) (JStr []) False],
            state_file = Some 1, encode_calls = 1, add_calls = 1\<rparr>
   \<and> main (toy_env\<lparr>encode_fails := (\<lambda>n. True), add_fails := (\<lambda>n. True)\<rparr>)
      (Some [turn_line @ [10]])
      \<lparr>store = [live_entry toy_env 1 (lit ''hi'') [] (JStr []) (JStr []) False],
         state_file = Some 1, encode_calls = 1, add_calls = 1\<rparr>
    = Done \<lparr>store = [live_entry toy_env 1 (lit ''hi'') [] (JStr []) (JStr []) False],
            state_file = Some 1, encode_calls = 1, add_calls = 1\<rparr>"
  using ingest_idempotent[of toy_env "Some [turn_line @ [10]]"
      "\<lparr>store = [], state_file = None, encode_calls = 0, add_calls = 0\<rparr>"
      "\<lparr>store = [live_entry toy_env 1 (lit ''hi'') [] (JStr []) (JStr []) False],
         state_file = Some 1, encode_calls = 1, add_calls = 1\<rparr>"
      "toy_env\<lparr>encode_fails := (\<lambda>n. True), add_fails := (\<lambda>n. True)\<rparr>"]
    first_run
  by simp

text \<open>
  C2 (watermark advancement on noise), as the claim states it, fails: a line that does
  not parse is not yielded by \<open>iter_new_records\<close>, so its number never reaches
  \<open>new_last_line\<close>. On a log whose only line is not JSON the run completes with the
  cursor still at 0, not at 1, the highest line number scanned.
\<close>

theorem ingest_noise_counterexample:
  "toy_loads (strip (lit ''not json'')) = None
   \<and> main toy_env (Some [lit ''not json''])
      \<lparr>store = [], state_file = Some 0, encode_calls = 0, add_calls = 0\<rparr>
    = Done \<lparr>store = [], state_file = Some 0, encode_calls = 0, add_calls = 0\<rparr>"
  by (simp add: main_def load_state_def iter_new_records_def strip_not_json not_json_noise
      toy_env_def empty_batch_def lit_nonempty)

text \<open>
  C2 as amended. When every line after the cursor is blank or does not parse, a run
  completes and changes nothing: no call is made and the cursor stays where it was.
  A parse failure does not block later lines: a line after the cursor is yielded, under
  its own number, exactly when it is not blank and parses; and a run that completes
  leaves the cursor at the highest line number yielded, or where it was when none is.
\<close>

theorem ingest_noise_amended:
  "((\<forall>k<length lines. load_state w < int k + 1 \<longrightarrow> noise (loads env) (lines ! k))
      \<longrightarrow> main env (Some lines) w = Done w)
   \<and> ((k, r) \<in> set (iter_new_records ld c (Some lines)) \<longleftrightarrow>
        c < k \<and> 1 \<le> k \<and> k \<le> int (length lines)
        \<and> strip (lines ! nat (k - 1)) \<noteq> [] \<and> ld (strip (lines ! nat (k - 1))) = Some r)
   \<and> (main env logf w = Done w' \<longrightarrow>
        load_state w' = Max (insert (load_state w)
           (fst ` set (iter_new_records (loads env) (load_state w) logf))))"
proof (intro conjI impI)
  assume "\<forall>k<length lines. load_state w < int k + 1 \<longrightarrow> noise (loads env) (lines ! k)"
  then have "iter_new_records (loads env) (load_state w) (Some lines) = []"
    by (rule iter_new_records_noise)
  then show "main env (Some lines) w = Done w" by (rule main_nothing_new)
next
  show "(k, r) \<in> set (iter_new_records ld c (Some lines)) \<longleftrightarrow>
        c < k \<and> 1 \<le> k \<and> k \<le> int (length lines)
        \<and> strip (lines ! nat (k - 1)) \<noteq> [] \<and> ld (strip (lines ! nat (k - 1))) = Some r"
    by (rule iter_new_records_mem)
next
  assume "main env logf w = Done w'"
  then show "load_state w' = Max (insert (load_state w)
           (fst ` set (iter_new_records (loads env) (load_state w) logf)))"
    by (rule main_done_cursor)
qed

theorem ingest_noise_amended_witness:
  "noise toy_loads (lit ''not json'')
   \<and> main toy_env (Some [lit ''not json''])
        \<lparr>store = [], state_file = None, encode_calls = 0, add_calls = 0\<rparr>
      = Done \<lparr>store = [], state_file = None, encode_calls = 0, add_calls = 0\<rparr>
   \<and> iter_new_records toy_loads 0 (Some [lit ''not json'', turn_line @ [10]])
      = [(2, JObj [(lit ''user_prompt'', JStr (lit ''hi''))])]
   \<and> load_state (final (main toy_env (Some [lit ''not json'', turn_line @ [10]])
        \<lparr>store = [], state_file = None, encode_calls = 0, add_calls = 0\<rparr>)) = 2"
proof -
  have n: "noise toy_loads (lit ''not json'')"
    by (simp add: noise_def not_json_noise strip_not_json)
  have it: "iter_new_records toy_loads 0 (Some [lit ''not json'', turn_line @ [10]])
      = [(2, JObj [(lit ''user_prompt'', JStr (lit ''hi''))])]"
    by (simp add: iter_new_records_def strip_not_json not_json_noise strip_turn_line
        turn_line_nonempty toy_loads_turn lit_nonempty)
  have l0: "load_state \<lparr>store = [], state_file = None, encode_calls = 0, add_calls = 0\<rparr> = (0::int)"
    by (simp add: load_state_def)
  have ld: "loads toy_env = toy_loads" by (simp add: toy_env_def)
  show ?thesis
    using ingest_noise_amended[of "[lit ''not json'']"
        "\<lparr>store = [], state_file = None, encode_calls = 0, add_calls = 0\<rparr>" toy_env
        2 "JObj [(lit ''user_prompt'', JStr (lit ''hi''))]" toy_loads 0
        "Some [lit ''not json'', turn_line @ [10]]"
        "\<lparr>store = [live_entry toy_env 2 (lit ''hi'') [] (JStr []) (JStr []) False],
            state_file = Some 2, encode_calls = 1, add_calls = 1\<rparr>"]
      n it noise_then_turn
    by (simp add: l0 ld)
qed

end
